theory Spec2Isabelle
  imports Main
begin

section \<open>Port bus (src/ports.ts)\<close>

text \<open>
  The bus keeps, per port name, the set of subscribed listeners (a JavaScript \<open>Set\<close>,
  iterated in insertion order) and the last payload. A listener is a function value; the
  model names each one: \<open>Callback c\<close> is the user callback number \<open>c\<close>, which is opaque
  and only records that it was invoked, and \<open>OnceWrapper w c\<close> is the closure \<open>wrapper\<close>
  that the \<open>w\<close>-th call of \<open>oncePort\<close> builds around callback \<open>c\<close>. The variable \<open>off\<close>
  captured by that closure lives in \<open>off_var\<close>: \<open>None\<close> is \<open>null\<close>, \<open>Some (port, l)\<close> is the
  unsubscribe function returned by \<open>onPort port l\<close>. \<open>next_wrapper\<close> numbers the closures.
  \<open>calls\<close> and \<open>posted\<close> are not in the source: they record, in order, the invocations of
  the user callbacks and the messages posted to the attached workers. \<open>log\<close> only writes
  to the console and is left out.
\<close>

type_synonym port_name = string

datatype listener = Callback nat | OnceWrapper nat nat

record 'a shared_state =
  listeners :: "port_name \<Rightarrow> listener list option"
  last_val :: "port_name \<Rightarrow> 'a option"
  workers :: "nat list"
  off_var :: "nat \<Rightarrow> (port_name \<times> listener) option"
  next_wrapper :: nat
  calls :: "(nat \<times> 'a) list"
  posted :: "(nat \<times> port_name \<times> 'a) list"

definition init_shared :: "'a shared_state" where
  "init_shared = \<lparr> listeners = (\<lambda>_. None), last_val = (\<lambda>_. None), workers = [],
     off_var = (\<lambda>_. None), next_wrapper = 0, calls = [], posted = [] \<rparr>"

text \<open>The function returned by \<open>onPort\<close>: \<open>listeners.get(port).delete(cb)\<close>.\<close>

definition unsubscribe :: "port_name \<times> listener \<Rightarrow> 'a shared_state \<Rightarrow> 'a shared_state" where
  "unsubscribe u s =
     (case listeners s (fst u) of
        None \<Rightarrow> s
      | Some ls \<Rightarrow> s\<lparr>listeners := (listeners s)(fst u \<mapsto> removeAll (snd u) ls)\<rparr>)"

text \<open>
  Invoking a listener. The wrapper of \<open>oncePort\<close> is
  \<^verbatim>\<open>(data) => { if (off) off(); cb(data); }\<close>.
\<close>

fun call_listener :: "listener \<Rightarrow> 'a \<Rightarrow> 'a shared_state \<Rightarrow> 'a shared_state" where
  "call_listener (Callback c) payload s = s\<lparr>calls := calls s @ [(c, payload)]\<rparr>"
| "call_listener (OnceWrapper w c) payload s =
     (let s1 = (case off_var s w of None \<Rightarrow> s | Some u \<Rightarrow> unsubscribe u s)
      in s1\<lparr>calls := calls s1 @ [(c, payload)]\<rparr>)"

text \<open>
  \<open>Set.prototype.forEach\<close> over the listeners present when the iteration starts; one
  that was deleted before its turn is skipped.
\<close>

fun for_each :: "port_name \<Rightarrow> listener list \<Rightarrow> 'a \<Rightarrow> 'a shared_state \<Rightarrow> 'a shared_state" where
  "for_each port [] payload s = s"
| "for_each port (l # ls) payload s =
     for_each port ls payload
       (case listeners s port of
          None \<Rightarrow> s
        | Some cur \<Rightarrow> if l \<in> set cur then call_listener l payload s else s)"

definition emitPort :: "port_name \<Rightarrow> 'a \<Rightarrow> 'a shared_state \<Rightarrow> 'a shared_state" where
  "emitPort port payload s =
     (let s1 = s\<lparr>last_val := (last_val s)(port \<mapsto> payload)\<rparr>;
          s2 = (case listeners s1 port of
                  None \<Rightarrow> s1
                | Some ls \<Rightarrow> for_each port ls payload s1)
      in s2\<lparr>posted := posted s2 @ map (\<lambda>w. (w, port, payload)) (workers s2)\<rparr>)"

definition onPort ::
  "port_name \<Rightarrow> listener \<Rightarrow> bool \<Rightarrow> 'a shared_state \<Rightarrow> (port_name \<times> listener) \<times> 'a shared_state" where
  "onPort port cb replay s =
     (let s1 = (if listeners s port = None then s\<lparr>listeners := (listeners s)(port \<mapsto> [])\<rparr> else s);
          ls = (case listeners s1 port of None \<Rightarrow> [] | Some xs \<Rightarrow> xs);
          s2 = s1\<lparr>listeners := (listeners s1)(port \<mapsto> (if cb \<in> set ls then ls else ls @ [cb]))\<rparr>;
          s3 = (case last_val s2 port of
                  None \<Rightarrow> s2
                | Some v \<Rightarrow> if replay then call_listener cb v s2 else s2)
      in ((port, cb), s3))"

definition oncePort :: "port_name \<Rightarrow> nat \<Rightarrow> 'a shared_state \<Rightarrow> 'a shared_state" where
  "oncePort port cb s =
     (let w = next_wrapper s;
          s0 = s\<lparr>next_wrapper := Suc w, off_var := (off_var s)(w := None)\<rparr>;
          r = onPort port (OnceWrapper w cb) True s0
      in (snd r)\<lparr>off_var := (off_var (snd r))(w \<mapsto> fst r)\<rparr>)"

definition getPortSnapshot :: "port_name \<Rightarrow> 'a shared_state \<Rightarrow> 'a option" where
  "getPortSnapshot port s = last_val s port"

text \<open>How often a user callback has been invoked.\<close>

definition invocations :: "nat \<Rightarrow> 'a shared_state \<Rightarrow> nat" where
  "invocations c s = length (filter (\<lambda>e. fst e = c) (calls s))"

section \<open>Store coordinator (src/store.ts)\<close>

text \<open>
  The messages a store worker sends, and the listener that \<open>defineGlobalStore\<close> attaches
  to the worker: a \<open>state\<close> message is republished on the bus, \<open>ready\<close> resolves the
  \<open>ready\<close> promise, \<open>persist:ls:set\<close> writes localStorage, \<open>error\<close> goes to the console.
\<close>

datatype 'a worker_out = Ready | State 'a | PersistLsSet string string | Error string

record 'a coordinator =
  bus :: "'a shared_state"
  ready :: bool
  localStorage :: "string \<Rightarrow> string option"
  console_errors :: "string list"

definition portNameState :: "string \<Rightarrow> port_name" where
  "portNameState name = ''2mqjs:store:'' @ name @ '':state''"

fun on_worker_message :: "string \<Rightarrow> 'a worker_out \<Rightarrow> 'a coordinator \<Rightarrow> 'a coordinator" where
  "on_worker_message name (State st) c = c\<lparr>bus := emitPort (portNameState name) st (bus c)\<rparr>"
| "on_worker_message name Ready c = c\<lparr>ready := True\<rparr>"
| "on_worker_message name (PersistLsSet k json) c = c\<lparr>localStorage := (localStorage c)(k \<mapsto> json)\<rparr>"
| "on_worker_message name (Error m) c = c\<lparr>console_errors := console_errors c @ [m]\<rparr>"

definition init_coordinator :: "'a coordinator" where
  "init_coordinator = \<lparr> bus = init_shared, ready = False, localStorage = (\<lambda>_. None),
     console_errors = [] \<rparr>"

section \<open>Task scheduler (src/tasks.ts)\<close>

text \<open>
  The scheduler is asynchronous code; the model is a big-step one. A promise is modelled
  by how it ends: \<open>Resolved\<close>, \<open>Rejected\<close>, or \<open>Pending\<close> when it never settles. Awaiting
  a promise yields that outcome, and the state returned by a call is the state once every
  execution it started has run its course. What the caller supplies is modelled by its
  result: the \<open>k\<close>-th invocation of a task's \<open>run\<close> returns (or resolves), throws
  synchronously, returns a promise that rejects, or returns a promise that never settles;
  a task's \<open>when\<close> (a strategy string or a function) holds, fails (\<open>false\<close>), raises
  (synchronously or by rejection) or waits for ever. \<open>run\<close> and \<open>when\<close> do not call the
  scheduler themselves. \<open>tlog\<close> only writes to the console and is left out.
\<close>

datatype outcome = Resolved | Rejected | Pending

datatype run_result = Returns | ThrowsSync | RejectsAsync | NeverSettles

datatype condition = Holds | Fails | RaisesSync | RaisesAsync | Waits

text \<open>
  A \<open>Task\<close>. An absent \<open>deps\<close> is \<open>[]\<close> (\<open>t.deps?.length\<close> is falsy for both), an absent
  \<open>priority\<close> or \<open>retry\<close> is \<open>0\<close> (\<open>?? 0\<close>).
\<close>

record task =
  task_id :: string
  task_stage :: "string option"
  task_priority :: int
  task_deps :: "string list"
  task_when :: "condition option"
  task_run :: "nat \<Rightarrow> run_result"
  task_retry :: nat

text \<open>
  The shared \<open>TaskState\<close>. \<open>tasks\<close> is the \<open>Map\<close> from id to task in insertion order; it is
  only written by \<open>registerTask\<close> under the key \<open>task.id\<close>, so it is kept as the list of its
  values. \<open>cache\<close> holds the in-flight promises under the key \<open>inflight:<id>\<close>: an entry
  \<open>(out, fin)\<close> is a promise that ends as \<open>out\<close>; \<open>fin\<close> tells whether the execution behind
  it reaches its \<open>finally\<close> block, which deletes the entry. \<open>runs\<close> is not in the source: it
  counts, per task id, the invocations of \<open>run\<close>.
\<close>

record task_state =
  tasks :: "task list"
  done_ids :: "string set"
  cache :: "string \<Rightarrow> (outcome \<times> bool) option"
  running :: bool
  debug :: bool
  runs :: "string \<Rightarrow> nat"

fun tasks_set :: "task \<Rightarrow> task list \<Rightarrow> task list" where
  "tasks_set t [] = [t]"
| "tasks_set t (u # us) = (if task_id u = task_id t then t # us else u # tasks_set t us)"

definition tasks_get :: "task list \<Rightarrow> string \<Rightarrow> task option" where
  "tasks_get ts i = find (\<lambda>t. task_id t = i) ts"

definition registerTask :: "task \<Rightarrow> task_state \<Rightarrow> task_state" where
  "registerTask t st = st\<lparr>tasks := tasks_set t (tasks st)\<rparr>"

definition resetTasks :: "task_state \<Rightarrow> task_state" where
  "resetTasks st = st\<lparr>done_ids := {}, cache := (\<lambda>_. None)\<rparr>"

definition setTasksDebug :: "bool \<Rightarrow> task_state \<Rightarrow> task_state" where
  "setTasksDebug enabled st = st\<lparr>debug := enabled\<rparr>"

text \<open>
  \<open>Promise.all\<close> rejects as soon as one member rejects, resolves when all have resolved,
  and otherwise never settles.
\<close>

definition promise_all :: "outcome list \<Rightarrow> outcome" where
  "promise_all os = (if Rejected \<in> set os then Rejected else if Pending \<in> set os then Pending else Resolved)"

text \<open>
  The retry loop of \<open>runSingle\<close> (\<open>while (true) { try { await t.run(); done.add(t.id);
  resolveInflight(); break } catch { if (attempts > 0) { attempts--; await timeout; continue }
  rejectInflight(error); throw error } }\<close>). The result is how the in-flight promise ends,
  whether the execution reaches \<open>finally\<close>, and whether it got there without ever being
  suspended (\<open>awaited\<close> records that an \<open>await\<close> has already happened).
\<close>

definition invoke_run :: "string \<Rightarrow> task_state \<Rightarrow> task_state" where
  "invoke_run i st = st\<lparr>runs := (runs st)(i := Suc (runs st i))\<rparr>"

fun retry_loop :: "task \<Rightarrow> string \<Rightarrow> bool \<Rightarrow> nat \<Rightarrow> task_state \<Rightarrow> (outcome \<times> bool \<times> bool) \<times> task_state" where
  "retry_loop t i awaited attempts st =
     (case task_run t (runs st i) of
        Returns \<Rightarrow>
          ((Resolved, True, False), (invoke_run i st)\<lparr>done_ids := insert (task_id t) (done_ids st)\<rparr>)
      | NeverSettles \<Rightarrow> ((Pending, False, False), invoke_run i st)
      | ThrowsSync \<Rightarrow>
          (if 0 < attempts then retry_loop t i True (attempts - 1) (invoke_run i st)
           else ((Rejected, True, \<not> awaited), invoke_run i st))
      | RejectsAsync \<Rightarrow>
          (if 0 < attempts then retry_loop t i True (attempts - 1) (invoke_run i st)
           else ((Rejected, True, False), invoke_run i st)))"

text \<open>
  The body of the inner async function after the dependencies have been awaited. A
  rejected \<open>Promise.all\<close> of the dependencies, or a \<open>when\<close> that raises, leaves the \<open>try\<close>
  block through \<open>finally\<close> without settling the in-flight promise: there is no \<open>catch\<close>
  around them, and \<open>rejectInflight\<close> is only called by the retry loop.
\<close>

definition iife_rest :: "string \<Rightarrow> task \<Rightarrow> outcome \<Rightarrow> task_state \<Rightarrow> (outcome \<times> bool \<times> bool) \<times> task_state" where
  "iife_rest i t deps_result st =
     (case deps_result of
        Rejected \<Rightarrow> ((Pending, True, False), st)
      | Pending \<Rightarrow> ((Pending, False, False), st)
      | Resolved \<Rightarrow>
          (case task_when t of
             None \<Rightarrow> retry_loop t i (task_deps t \<noteq> []) (task_retry t) st
           | Some Holds \<Rightarrow> retry_loop t i True (task_retry t) st
           | Some Fails \<Rightarrow> ((Resolved, True, False), st)
           | Some RaisesSync \<Rightarrow> ((Pending, True, task_deps t = []), st)
           | Some RaisesAsync \<Rightarrow> ((Pending, True, False), st)
           | Some Waits \<Rightarrow> ((Pending, False, False), st)))"

text \<open>
  \<open>cache.set(inflightKey, inflight)\<close>, before the dependencies are started. While the
  dependencies of \<open>i\<close> are being started the promise of \<open>i\<close> is unsettled; a dependency that
  awaits it (a cycle) waits for a promise that can only settle after that dependency has
  resolved, hence never: the entry is \<open>Pending\<close> until the execution's own result is known.
\<close>

definition begin_inflight :: "string \<Rightarrow> task_state \<Rightarrow> task_state" where
  "begin_inflight i st = st\<lparr>cache := (cache st)(i \<mapsto> (Pending, False))\<rparr>"

text \<open>No task under this id: \<open>done.add(id); resolveInflight(); return\<close>, then \<open>finally\<close>.\<close>

definition no_task :: "string \<Rightarrow> task_state \<Rightarrow> outcome \<times> task_state" where
  "no_task i st = (Resolved, st\<lparr>done_ids := insert i (done_ids st), cache := (cache st)(i := None)\<rparr>)"

text \<open>
  The cache entry an execution leaves behind: none if it went through \<open>finally\<close> without
  ever being suspended, else its promise, which later callers of the same batch find as
  \<open>existed\<close> and await.
\<close>

definition finish :: "string \<Rightarrow> task \<Rightarrow> outcome list \<Rightarrow> task_state \<Rightarrow> outcome \<times> task_state" where
  "finish i t outs st =
     (case iife_rest i t (promise_all outs) st of
        ((settles, finishes, sync), st') \<Rightarrow>
          (settles, st'\<lparr>cache := (cache st')(i := (if sync then None else Some (settles, finishes)))\<rparr>))"

text \<open>
  \<open>runSingle\<close>. Every call of \<open>runSingle\<close> that a batch makes happens before the first
  suspension of the batch (an execution calls \<open>runSingle\<close> for its dependencies before its
  first \<open>await\<close>), in the order of the source; \<open>run_each\<close> is
  \<open>deps.map(dep => runSingle(dep))\<close>. The first argument is fuel for the recursion through
  the dependencies; \<open>None\<close> means that it ran out.
\<close>

fun runSingle :: "nat \<Rightarrow> string \<Rightarrow> task_state \<Rightarrow> (outcome \<times> task_state) option"
  and run_each :: "nat \<Rightarrow> string list \<Rightarrow> task_state \<Rightarrow> (outcome list \<times> task_state) option" where
  "runSingle 0 i st = None"
| "runSingle (Suc n) i st =
     (if i \<in> done_ids st then Some (Resolved, st)
      else case cache st i of
        Some existed \<Rightarrow> Some (fst existed, st)
      | None \<Rightarrow>
          (case tasks_get (tasks st) i of
             None \<Rightarrow> Some (no_task i (begin_inflight i st))
           | Some t \<Rightarrow>
               (case run_each n (task_deps t) (begin_inflight i st) of
                  None \<Rightarrow> None
                | Some (outs, st') \<Rightarrow> Some (finish i t outs st'))))"
| "run_each n [] st = Some ([], st)"
| "run_each n (d # ds) st =
     (case runSingle n d st of
        None \<Rightarrow> None
      | Some (out, st') \<Rightarrow>
          (case run_each n ds st' of
             None \<Rightarrow> None
           | Some (outs, st'') \<Rightarrow> Some (out # outs, st'')))"

text \<open>
  \<open>Array.from(tasks.values()).filter(t => stage ? t.stage === stage : true)\<close>, sorted by
  priority (the sort is stable). An empty string is falsy, like an absent stage.
\<close>

definition select_tasks :: "string option \<Rightarrow> task_state \<Rightarrow> task list" where
  "select_tasks stage st =
     sort_key task_priority
       (filter (\<lambda>t. case stage of None \<Rightarrow> True | Some s \<Rightarrow> s = [] \<or> task_stage t = Some s)
          (tasks st))"

text \<open>The \<open>finally\<close> blocks of the finished executions have deleted their cache entries.\<close>

definition quiesce :: "task_state \<Rightarrow> task_state" where
  "quiesce st = st\<lparr>cache := (\<lambda>i. case cache st i of None \<Rightarrow> None
                                  | Some e \<Rightarrow> if snd e then None else Some e)\<rparr>"

text \<open>
  \<open>runTasks\<close>: the \<open>throw\<close> of an async function is a rejected promise; \<open>finally\<close> resets
  \<open>running\<close> once \<open>Promise.all\<close> has settled, and never if it does not settle.
\<close>

definition runTasks :: "nat \<Rightarrow> string option \<Rightarrow> task_state \<Rightarrow> (outcome \<times> task_state) option" where
  "runTasks fuel stage st =
     (if running st then Some (Rejected, st)
      else case run_each fuel (map task_id (select_tasks stage st)) (st\<lparr>running := True\<rparr>) of
        None \<Rightarrow> None
      | Some (outs, st') \<Rightarrow>
          (case promise_all outs of
             Pending \<Rightarrow> Some (Pending, quiesce st')
           | Resolved \<Rightarrow> Some (Resolved, (quiesce st')\<lparr>running := False\<rparr>)
           | Rejected \<Rightarrow> Some (Rejected, (quiesce st')\<lparr>running := False\<rparr>)))"

definition init_tasks :: task_state where
  "init_tasks = \<lparr> tasks = [], done_ids = {}, cache = (\<lambda>_. None), running = False, debug = False,
     runs = (\<lambda>_. 0) \<rparr>"


text \<open>Notions used to state and prove the properties of the scheduler.\<close>

definition throws :: "run_result \<Rightarrow> bool" where
  "throws r = (r = ThrowsSync \<or> r = RejectsAsync)"



definition frame :: "task_state \<Rightarrow> task_state \<Rightarrow> bool" where
  "frame st st' \<longleftrightarrow>
     tasks st' = tasks st \<and> running st' = running st \<and> done_ids st \<subseteq> done_ids st' \<and>
     (\<forall>j. cache st j \<noteq> None \<longrightarrow> cache st' j \<noteq> None) \<and>
     (\<forall>j. j \<in> done_ids st \<longrightarrow> runs st' j = runs st j)"

definition unstarted :: "task_state \<Rightarrow> string set" where
  "unstarted st = {i \<in> task_id ` set (tasks st). cache st i = None}"






text \<open>Example tasks.\<close>

definition dependent_task :: task where
  "dependent_task = \<lparr> task_id = ''A'', task_stage = Some ''ui'', task_priority = 0, task_deps = [''B''],
     task_when = None, task_run = (\<lambda>_. Returns), task_retry = 0 \<rparr>"

definition failing_dep :: task where
  "failing_dep = \<lparr> task_id = ''B'', task_stage = Some ''bootstrap'', task_priority = 0, task_deps = [],
     task_when = None, task_run = (\<lambda>_. RejectsAsync), task_retry = 0 \<rparr>"

definition flaky :: task where
  "flaky = \<lparr> task_id = ''flaky'', task_stage = None, task_priority = 0, task_deps = [],
     task_when = None, task_run = (\<lambda>_. RejectsAsync), task_retry = 2 \<rparr>"

definition recovers :: task where
  "recovers = \<lparr> task_id = ''recovers'', task_stage = None, task_priority = 0, task_deps = [],
     task_when = None, task_run = (\<lambda>k. if k < 2 then ThrowsSync else Returns), task_retry = 2 \<rparr>"




section \<open>Store subprocess: path operations (src/store.worker.ts)\<close>

text \<open>
  The state of a store is a tree of JavaScript values. Arrays and objects have an
  identity, which \<open>===\<close> compares: the model gives each the number under which it was
  allocated, and a counter \<open>c\<close>, larger than every number in use, supplies the next one.
  No operation below changes an existing array or object; each builds new ones, so a
  value stands for the object and its contents at once.

  An array has its elements (\<open>None\<close> is a hole), the named properties that an assignment
  with a key that is not an index gives it, and its prototype; an object has its
  properties and its prototype. The prototype is \<open>None\<close> for the built-in one
  (\<open>Array.prototype\<close>, \<open>Object.prototype\<close>), which every array and object of a JSON tree
  has, and \<open>Some q\<close> once an assignment to \<open>__proto__\<close> has replaced it by \<open>q\<close> (\<open>VNull\<close>: no
  prototype at all). \<open>VBuiltin b\<close> is an object of the language itself, such as
  \<open>Object.prototype\<close> or the function \<open>Object.prototype.toString\<close>; a path reaches these
  through inherited properties (\<open>state.toString\<close>). \<open>VNum n\<close> is the integer \<open>n\<close>, and
  \<open>VFrac i\<close> a number that is not an integer, of which the model keeps no more than a
  name \<open>i\<close>: the operations store and compare numbers, and only compute with one where
  it becomes the \<open>length\<close> of an array, which a number that is not an integer cannot be.

  A key is what \<open>splitPath\<close> makes of a segment: \<open>KStr s\<close> is the string \<open>s\<close>, \<open>KNum n\<close> the
  number \<open>n\<close>, below \<open>2^53\<close>, where \<open>Number(p)\<close> is exact, and \<open>KBig s\<close> a number of at least
  \<open>2^53\<close>, of which the model keeps the property name \<open>s\<close> that it converts to.
\<close>

datatype key = KNum nat | KBig string | KStr string

datatype val = VUndef | VNull | VBool bool | VNum int | VFrac nat | VStr string
  | VArr nat "val option list" "(string \<times> val) list" "val option"
  | VObj nat "(string \<times> val) list" "val option"
  | VBuiltin nat

datatype error = RangeError | TypeError

text \<open>
  What the language provides, and this repository does not define, is a parameter of the
  model, the runtime:
  \<^item> \<open>to_num\<close>: \<open>ToNumber\<close> of a string, an array or an object (\<open>Some n\<close> for the integer \<open>n\<close>,
    \<open>None\<close> otherwise); it only matters when such a value is assigned to the \<open>length\<close> of
    an array;
  \<^item> \<open>big_name p\<close>: for a string of digits \<open>p\<close> that denotes a number of at least \<open>2^53\<close>,
    the property name \<open>String(Number(p))\<close>: \<open>Number\<close> rounds to a double
    (\<open>'9007199254740993'\<close> addresses the property \<open>'9007199254740992'\<close>), which prints with
    an exponent from \<open>10^21\<close> on;
  \<^item> the built-in prototypes of objects, arrays, strings, numbers and booleans;
  \<^item> \<open>builtin_get b s\<close>: reading the property \<open>s\<close> of the built-in object \<open>b\<close>, its own
    prototype chain included; the result is an exception where a getter throws, as that
    of \<open>caller\<close> does for a built-in function;
  \<^item> \<open>builtin_shape b\<close>: whether \<open>Array.isArray(b)\<close> holds (it does for \<open>Array.prototype\<close>),
    or else whether \<open>typeof b\<close> is \<open>'object'\<close> or \<open>'function'\<close>, with the elements that
    \<open>slice()\<close> and the own enumerable properties that \<open>{ ...b }\<close> copies.
\<close>

datatype shape = BArray "val option list" | BObject "(string \<times> val) list" | BFunction "(string \<times> val) list"

record runtime =
  to_num :: "val \<Rightarrow> int option"
  big_name :: "string \<Rightarrow> string"
  object_proto :: nat
  array_proto :: nat
  string_proto :: nat
  number_proto :: nat
  boolean_proto :: nat
  builtin_get :: "nat \<Rightarrow> string \<Rightarrow> error + val"
  builtin_shape :: "nat \<Rightarrow> shape"

text \<open>
  \<open>splitPath\<close>: \<open>path.split('.').map(p => /^\d+$/.test(p) ? Number(p) : p)\<close>, and the
  name under which a key addresses a property (\<open>ToString\<close> of a number below \<open>2^53\<close> is its
  decimal numeral). A number is the index of an array element if it is below
  \<open>2^32 - 1\<close>; \<open>join_dot\<close> is \<open>join('.')\<close>.
\<close>

definition digit_chars :: string where
  "digit_chars = ''0123456789''"

definition is_digit :: "char \<Rightarrow> bool" where
  "is_digit c = (c \<in> set digit_chars)"

definition digit_val :: "char \<Rightarrow> nat" where
  "digit_val c = length (takeWhile (\<lambda>d. d \<noteq> c) digit_chars)"

definition digit_char :: "nat \<Rightarrow> char" where
  "digit_char d = digit_chars ! d"

definition nat_of_digits :: "string \<Rightarrow> nat" where
  "nat_of_digits s = foldl (\<lambda>a c. 10 * a + digit_val c) 0 s"

fun digits :: "nat \<Rightarrow> string" where
  "digits n = (if n < 10 then [digit_char n] else digits (n div 10) @ [digit_char (n mod 10)])"

declare digits.simps [simp del]

fun split_dot :: "string \<Rightarrow> string list" where
  "split_dot [] = [[]]"
| "split_dot (c # cs) =
     (if c = CHR ''.'' then [] # split_dot cs
      else (case split_dot cs of [] \<Rightarrow> [[c]] | p # ps \<Rightarrow> (c # p) # ps))"

definition to_part :: "runtime \<Rightarrow> string \<Rightarrow> key" where
  "to_part rt p =
     (if p \<noteq> [] \<and> list_all is_digit p
      then (if nat_of_digits p < 9007199254740992 then KNum (nat_of_digits p)
            else KBig (big_name rt p))
      else KStr p)"

definition splitPath :: "runtime \<Rightarrow> string \<Rightarrow> key list" where
  "splitPath rt path = map (to_part rt) (split_dot path)"

fun key_name :: "key \<Rightarrow> string" where
  "key_name (KNum n) = digits n"
| "key_name (KBig s) = s"
| "key_name (KStr s) = s"

fun is_number :: "key \<Rightarrow> bool" where
  "is_number (KStr s) = False"
| "is_number k = True"

definition array_index :: "key \<Rightarrow> nat option" where
  "array_index k = (case k of KNum n \<Rightarrow> if n < 4294967295 then Some n else None | _ \<Rightarrow> None)"

fun join_dot :: "string list \<Rightarrow> string" where
  "join_dot [] = []"
| "join_dot [s] = s"
| "join_dot (s # t # ss) = s @ ''.'' @ join_dot (t # ss)"

text \<open>Lists of properties: write and \<open>delete\<close>; \<open>map_of\<close> reads them.\<close>

fun prop_set :: "string \<Rightarrow> val \<Rightarrow> (string \<times> val) list \<Rightarrow> (string \<times> val) list" where
  "prop_set s v [] = [(s, v)]"
| "prop_set s v (p # ps) = (if fst p = s then (s, v) # ps else p # prop_set s v ps)"

definition prop_del :: "string \<Rightarrow> (string \<times> val) list \<Rightarrow> (string \<times> val) list" where
  "prop_del s ps = filter (\<lambda>p. fst p \<noteq> s) ps"

text \<open>
  \<open>v == null\<close>, \<open>Array.isArray(v)\<close> and the function \<open>isObject\<close> of the source,
  \<open>v && typeof v === 'object' && !Array.isArray(v)\<close>.
\<close>

definition nullish :: "val \<Rightarrow> bool" where
  "nullish v = (v = VUndef \<or> v = VNull)"

definition isArray :: "runtime \<Rightarrow> val \<Rightarrow> bool" where
  "isArray rt v =
     (case v of
        VArr t xs nm pr \<Rightarrow> True
      | VBuiltin b \<Rightarrow> (case builtin_shape rt b of BArray xs \<Rightarrow> True | _ \<Rightarrow> False)
      | _ \<Rightarrow> False)"

definition isObject :: "runtime \<Rightarrow> val \<Rightarrow> bool" where
  "isObject rt v =
     (case v of
        VObj t ps pr \<Rightarrow> True
      | VBuiltin b \<Rightarrow> (case builtin_shape rt b of BObject ps \<Rightarrow> True | _ \<Rightarrow> False)
      | _ \<Rightarrow> False)"

text \<open>
  Reading \<open>cur[k]\<close>. The own properties of a value: the elements, the \<open>length\<close> and the
  named properties of an array, the properties of an object, the characters and the
  \<open>length\<close> of a string. A property that the value does not own is looked up along its
  prototype chain (\<open>proto_of\<close> is the prototype of the value, for a primitive value that
  of its wrapper): first in the objects that assignments to \<open>__proto__\<close> have put there, then
  in the built-in object in which the chain ends. There \<open>__proto__\<close> is an accessor, whose
  getter returns the prototype \<open>pv\<close> of the value that is being read, and every other
  property is what the runtime says. Reading a property of \<open>null\<close> or \<open>undefined\<close> is a
  \<open>TypeError\<close>; \<open>opt_get\<close> is \<open>cur?.[k]\<close>.
\<close>

fun own_get :: "val \<Rightarrow> key \<Rightarrow> val option" where
  "own_get (VArr t xs nm pr) k =
     (case array_index k of
        Some n \<Rightarrow> (if n < length xs then xs ! n else None)
      | None \<Rightarrow> if key_name k = ''length'' then Some (VNum (int (length xs)))
                else map_of nm (key_name k))"
| "own_get (VObj t ps pr) k = map_of ps (key_name k)"
| "own_get (VStr s) k =
     (case k of
        KNum n \<Rightarrow> (if n < length s then Some (VStr [s ! n]) else None)
      | _ \<Rightarrow> if key_name k = ''length'' then Some (VNum (int (length s))) else None)"
| "own_get v k = None"

definition proto_of :: "runtime \<Rightarrow> val \<Rightarrow> val" where
  "proto_of rt x =
     (case x of
        VArr t xs nm pr \<Rightarrow> (case pr of None \<Rightarrow> VBuiltin (array_proto rt) | Some q \<Rightarrow> q)
      | VObj t ps pr \<Rightarrow> (case pr of None \<Rightarrow> VBuiltin (object_proto rt) | Some q \<Rightarrow> q)
      | VStr s \<Rightarrow> VBuiltin (string_proto rt)
      | VNum n \<Rightarrow> VBuiltin (number_proto rt)
      | VFrac i \<Rightarrow> VBuiltin (number_proto rt)
      | VBool b \<Rightarrow> VBuiltin (boolean_proto rt)
      | _ \<Rightarrow> VNull)"

definition from_builtin :: "runtime \<Rightarrow> val \<Rightarrow> nat \<Rightarrow> key \<Rightarrow> error + val" where
  "from_builtin rt pv b k = (if key_name k = ''__proto__'' then Inr pv else builtin_get rt b (key_name k))"

fun inherited :: "runtime \<Rightarrow> val \<Rightarrow> val \<Rightarrow> key \<Rightarrow> error + val" where
  "inherited rt pv (VBuiltin b) k = from_builtin rt pv b k"
| "inherited rt pv (VObj t ps pr) k =
     (case map_of ps (key_name k) of
        Some v \<Rightarrow> Inr v
      | None \<Rightarrow> (case pr of None \<Rightarrow> from_builtin rt pv (object_proto rt) k
                 | Some q \<Rightarrow> inherited rt pv q k))"
| "inherited rt pv (VArr t xs nm pr) k =
     (case own_get (VArr t xs nm pr) k of
        Some v \<Rightarrow> Inr v
      | None \<Rightarrow> (case pr of None \<Rightarrow> from_builtin rt pv (array_proto rt) k
                 | Some q \<Rightarrow> inherited rt pv q k))"
| "inherited rt pv v k = Inr VUndef"

definition get_prop :: "runtime \<Rightarrow> val \<Rightarrow> key \<Rightarrow> error + val" where
  "get_prop rt x k =
     (case x of
        VUndef \<Rightarrow> Inl TypeError
      | VNull \<Rightarrow> Inl TypeError
      | VBuiltin b \<Rightarrow> builtin_get rt b (key_name k)
      | _ \<Rightarrow> (case own_get x k of
                Some v \<Rightarrow> Inr v
              | None \<Rightarrow> inherited rt (proto_of rt x) (proto_of rt x) k))"

definition opt_get :: "runtime \<Rightarrow> val \<Rightarrow> key \<Rightarrow> error + val" where
  "opt_get rt cur k = (if nullish cur then Inr VUndef else get_prop rt cur k)"

text \<open>
  Assigning to the \<open>length\<close> of an array: a \<open>RangeError\<close> unless the value converts to an
  integer from \<open>0\<close> to \<open>2^32 - 1\<close>; the array is truncated, or extended with holes.
\<close>

definition to_number :: "runtime \<Rightarrow> val \<Rightarrow> int option" where
  "to_number rt v =
     (case v of
        VUndef \<Rightarrow> None
      | VNull \<Rightarrow> Some 0
      | VBool b \<Rightarrow> Some (if b then 1 else 0)
      | VNum n \<Rightarrow> Some n
      | VFrac i \<Rightarrow> None
      | _ \<Rightarrow> to_num rt v)"

definition array_set_length :: "runtime \<Rightarrow> val option list \<Rightarrow> val \<Rightarrow> error + val option list" where
  "array_set_length rt xs v =
     (case to_number rt v of
        None \<Rightarrow> Inl RangeError
      | Some n \<Rightarrow>
          if 0 \<le> n \<and> n < 4294967296
          then Inr (take (nat n) xs @ replicate (nat n - length xs) None)
          else Inl RangeError)"

text \<open>
  Writing \<open>x[k] = v\<close> on an array or an object. An index writes an element of an array,
  \<open>length\<close> resizes it. Any other name that \<open>x\<close> owns is overwritten. A name that \<open>x\<close>
  does not own becomes a new own property, except \<open>__proto__\<close> when the accessor of
  \<open>Object.prototype\<close> is inherited (the chain of \<open>x\<close> reaches a built-in object, and no
  object on the way owns a property \<open>__proto__\<close>): its setter replaces the prototype of \<open>x\<close>
  if \<open>v\<close> is an object or \<open>null\<close>, and does nothing otherwise. The properties that
  \<open>Object.prototype\<close> and \<open>Array.prototype\<close> define are writable, so they do not stand in
  the way of a new own property. The source only assigns to the arrays and objects that
  it has just created, under one key each: they have the built-in prototype, unless that
  key is \<open>__proto__\<close>, and no value contains them, so that the setter never has to refuse
  a cyclic chain. An assignment to a primitive value is a \<open>TypeError\<close> in strict code.
\<close>

fun setter_reachable :: "val \<Rightarrow> bool" where
  "setter_reachable (VBuiltin b) = True"
| "setter_reachable (VObj t ps pr) =
     (map_of ps ''__proto__'' = None \<and> (case pr of None \<Rightarrow> True | Some q \<Rightarrow> setter_reachable q))"
| "setter_reachable (VArr t xs nm pr) =
     (map_of nm ''__proto__'' = None \<and> (case pr of None \<Rightarrow> True | Some q \<Rightarrow> setter_reachable q))"
| "setter_reachable v = False"

definition runs_setter :: "runtime \<Rightarrow> val \<Rightarrow> string \<Rightarrow> bool" where
  "runs_setter rt x s \<longleftrightarrow>
     s = ''__proto__'' \<and> own_get x (KStr s) = None \<and> setter_reachable (proto_of rt x)"

definition object_or_null :: "val \<Rightarrow> bool" where
  "object_or_null v =
     (case v of VArr t xs nm pr \<Rightarrow> True | VObj t ps pr \<Rightarrow> True | VBuiltin b \<Rightarrow> True
      | VNull \<Rightarrow> True | _ \<Rightarrow> False)"

fun put_prop :: "runtime \<Rightarrow> val \<Rightarrow> key \<Rightarrow> val \<Rightarrow> error + val" where
  "put_prop rt (VObj t ps pr) k v =
     (if runs_setter rt (VObj t ps pr) (key_name k)
      then Inr (VObj t ps (if object_or_null v then Some v else pr))
      else Inr (VObj t (prop_set (key_name k) v ps) pr))"
| "put_prop rt (VArr t xs nm pr) k v =
     (case array_index k of
        Some n \<Rightarrow>
          Inr (VArr t (if n < length xs then xs[n := Some v]
                       else xs @ replicate (n - length xs) None @ [Some v]) nm pr)
      | None \<Rightarrow>
          if key_name k = ''length''
          then (case array_set_length rt xs v of Inl e \<Rightarrow> Inl e | Inr ys \<Rightarrow> Inr (VArr t ys nm pr))
          else if runs_setter rt (VArr t xs nm pr) (key_name k)
          then Inr (VArr t xs nm (if object_or_null v then Some v else pr))
          else Inr (VArr t xs (prop_set (key_name k) v nm) pr))"
| "put_prop rt x k v = Inl TypeError"

text \<open>\<open>getAtPath\<close>: \<open>for (const k of parts) { if (cur == null) return undefined; cur = cur[k] }\<close>.\<close>

fun get_parts :: "runtime \<Rightarrow> val \<Rightarrow> key list \<Rightarrow> error + val" where
  "get_parts rt cur [] = Inr cur"
| "get_parts rt cur (k # ks) =
     (if nullish cur then Inr VUndef
      else (case get_prop rt cur k of Inl e \<Rightarrow> Inl e | Inr nxt \<Rightarrow> get_parts rt nxt ks))"

definition getAtPath :: "runtime \<Rightarrow> val \<Rightarrow> string \<Rightarrow> error + val" where
  "getAtPath rt obj path = get_parts rt obj (splitPath rt path)"

text \<open>
  The copies: \<open>cur.slice()\<close> has the elements of \<open>cur\<close>, holes included, and none of its
  named properties; \<open>{ ...cur }\<close> has the own enumerable properties of \<open>cur\<close> (for a string
  its characters, for a number or a boolean none). Both have the built-in prototype.
  (\<open>slice\<close> and \<open>splice\<close> make their result with the \<open>constructor\<close> of the array, for the
  arrays of a JSON tree the built-in one.)
\<close>

definition string_props :: "string \<Rightarrow> (string \<times> val) list" where
  "string_props s = map (\<lambda>i. (digits i, VStr [s ! i])) [0..<length s]"

definition elements :: "runtime \<Rightarrow> val \<Rightarrow> val option list" where
  "elements rt v =
     (case v of
        VArr t xs nm pr \<Rightarrow> xs
      | VBuiltin b \<Rightarrow> (case builtin_shape rt b of BArray xs \<Rightarrow> xs | _ \<Rightarrow> [])
      | _ \<Rightarrow> [])"

definition enumerable :: "runtime \<Rightarrow> val \<Rightarrow> (string \<times> val) list" where
  "enumerable rt v =
     (case v of
        VObj t ps pr \<Rightarrow> ps
      | VStr s \<Rightarrow> string_props s
      | VBuiltin b \<Rightarrow> (case builtin_shape rt b of BArray xs \<Rightarrow> [] | BObject ps \<Rightarrow> ps | BFunction ps \<Rightarrow> ps)
      | _ \<Rightarrow> [])"

text \<open>
  \<open>setAtPath\<close>. One round of the first loop computes \<open>next\<close> (\<open>value\<close> at the last
  segment, else \<open>cur?.[key] ?? (typeof parts[i + 1] === 'number' ? [] : {})\<close>), builds
  \<open>copy\<close> (\<open>cur.slice()\<close>, \<open>{ ...cur }\<close>, or a new \<open>[]\<close> or \<open>{}\<close>), assigns
  \<open>copy[key] = next\<close>, pushes \<open>[copy, key]\<close> and moves \<open>cur\<close> to \<open>cur?.[key]\<close>, in this
  order. The second loop, from the end of the stack, assigns \<open>parent[key] = child\<close>.
\<close>

definition copy_of :: "runtime \<Rightarrow> nat \<Rightarrow> val \<Rightarrow> key \<Rightarrow> val" where
  "copy_of rt c cur k =
     (if isArray rt cur then VArr c (elements rt cur) [] None
      else if isObject rt cur then VObj c (enumerable rt cur) None
      else if is_number k then VArr c [] [] None
      else VObj c [] None)"

definition next_value :: "runtime \<Rightarrow> nat \<Rightarrow> val \<Rightarrow> key \<Rightarrow> key list \<Rightarrow> val \<Rightarrow> error + (val \<times> nat)" where
  "next_value rt c cur k rest v =
     (case rest of
        [] \<Rightarrow> Inr (v, c)
      | k' # _ \<Rightarrow>
          (case opt_get rt cur k of
             Inl e \<Rightarrow> Inl e
           | Inr x \<Rightarrow>
               if nullish x
               then Inr (if is_number k' then VArr c [] [] None else VObj c [] None, Suc c)
               else Inr (x, c)))"

fun build :: "runtime \<Rightarrow> nat \<Rightarrow> val \<Rightarrow> key list \<Rightarrow> val \<Rightarrow> error + ((val \<times> key) list \<times> nat)" where
  "build rt c cur [] v = Inr ([], c)"
| "build rt c cur (k # rest) v =
     (case next_value rt c cur k rest v of
        Inl e \<Rightarrow> Inl e
      | Inr (nxt, c1) \<Rightarrow>
          (case put_prop rt (copy_of rt c1 cur k) k nxt of
             Inl e \<Rightarrow> Inl e
           | Inr copy \<Rightarrow>
               (case opt_get rt cur k of
                  Inl e \<Rightarrow> Inl e
                | Inr cur' \<Rightarrow>
                    (case build rt (Suc c1) cur' rest v of
                       Inl e \<Rightarrow> Inl e
                     | Inr (stack, c2) \<Rightarrow> Inr ((copy, k) # stack, c2)))))"

fun relink :: "runtime \<Rightarrow> (val \<times> key) list \<Rightarrow> error + (val \<times> key) list" where
  "relink rt [] = Inr []"
| "relink rt [p] = Inr [p]"
| "relink rt (p # q # stack) =
     (case relink rt (q # stack) of
        Inl e \<Rightarrow> Inl e
      | Inr st \<Rightarrow>
          (case put_prop rt (fst p) (snd p) (fst (hd st)) of
             Inl e \<Rightarrow> Inl e
           | Inr parent \<Rightarrow> Inr ((parent, snd p) # st)))"

definition set_parts :: "runtime \<Rightarrow> nat \<Rightarrow> val \<Rightarrow> key list \<Rightarrow> val \<Rightarrow> error + (val \<times> nat)" where
  "set_parts rt c root parts v =
     (case build rt c root parts v of
        Inl e \<Rightarrow> Inl e
      | Inr (stack, c') \<Rightarrow>
          (case relink rt stack of
             Inl e \<Rightarrow> Inl e
           | Inr st \<Rightarrow> Inr (case st of [] \<Rightarrow> v | p # _ \<Rightarrow> fst p, c')))"

definition setAtPath :: "runtime \<Rightarrow> nat \<Rightarrow> val \<Rightarrow> string \<Rightarrow> val \<Rightarrow> error + (val \<times> nat)" where
  "setAtPath rt c root path v = set_parts rt c root (splitPath rt path) v"

text \<open>
  \<open>deleteAtPath\<close>. \<open>spread\<close> is \<open>Array.isArray(parent) ? parent.slice() : { ...parent }\<close>,
  \<open>remove_key\<close> is \<open>splice(last, 1)\<close> for a numeric key of an array and \<open>delete copy[last]\<close>
  otherwise, which removes an own property and nothing else; the module is strict code,
  where deleting the \<open>length\<close> of an array is a \<open>TypeError\<close>. \<open>parentPath\<close> is a string
  again, which \<open>getAtPath\<close> and \<open>setAtPath\<close> split anew, and \<open>parentPath ? ... : ...\<close> tests
  it for emptiness.
\<close>

definition spread :: "runtime \<Rightarrow> nat \<Rightarrow> val \<Rightarrow> val" where
  "spread rt c parent =
     (if isArray rt parent then VArr c (elements rt parent) [] None
      else VObj c (enumerable rt parent) None)"

definition remove_key :: "val \<Rightarrow> key \<Rightarrow> error + val" where
  "remove_key copy k =
     (case copy of
        VArr t xs nm pr \<Rightarrow>
          (case k of
             KNum n \<Rightarrow> Inr (VArr t (take n xs @ drop (Suc n) xs) nm pr)
           | KBig s \<Rightarrow> Inr copy
           | KStr s \<Rightarrow> if s = ''length'' then Inl TypeError else Inr (VArr t xs (prop_del s nm) pr))
      | VObj t ps pr \<Rightarrow> Inr (VObj t (prop_del (key_name k) ps) pr)
      | _ \<Rightarrow> Inr copy)"

definition deleteAtPath :: "runtime \<Rightarrow> nat \<Rightarrow> val \<Rightarrow> string \<Rightarrow> error + (val \<times> nat)" where
  "deleteAtPath rt c root path =
     (let parts = splitPath rt path in
      if parts = [] then Inr (root, c)
      else
        let parentPath = join_dot (map key_name (butlast parts)) in
        (case (if parentPath \<noteq> [] then getAtPath rt root parentPath else Inr root) of
           Inl e \<Rightarrow> Inl e
         | Inr parent \<Rightarrow>
             if nullish parent then Inr (root, c)
             else (case remove_key (spread rt c parent) (last parts) of
                     Inl e \<Rightarrow> Inl e
                   | Inr copy \<Rightarrow>
                       if parentPath \<noteq> [] then setAtPath rt (Suc c) root parentPath copy
                       else Inr (copy, Suc c))))"

text \<open>
  A runtime for the examples, with a few of the built-in objects: the prototypes \<open>0\<close> to
  \<open>4\<close>, of which \<open>Array.prototype\<close> is an array, and the function \<open>5\<close>, which every value
  inherits as \<open>toString\<close> and whose \<open>caller\<close> throws.
\<close>

definition small_runtime :: runtime where
  "small_runtime =
     \<lparr> to_num = (\<lambda>v. None), big_name = (\<lambda>p. p),
       object_proto = 0, array_proto = 1, string_proto = 2, number_proto = 3, boolean_proto = 4,
       builtin_get = (\<lambda>b s. if s = ''toString'' then Inr (VBuiltin 5)
                             else if s = ''caller'' \<and> b = 5 then Inl TypeError
                             else Inr VUndef),
       builtin_shape = (\<lambda>b. if b = 1 then BArray [] else if b = 5 then BFunction [] else BObject []) \<rparr>"

text \<open>Notions used to state and prove the properties of the path operations.\<close>

fun tag_of :: "val \<Rightarrow> nat option" where
  "tag_of (VArr t xs nm pr) = Some t"
| "tag_of (VObj t ps pr) = Some t"
| "tag_of v = None"

fun container :: "val \<Rightarrow> bool" where
  "container (VArr t xs nm pr) = True"
| "container (VObj t ps pr) = True"
| "container v = False"

text \<open>
  A JSON tree: \<open>null\<close>, booleans, numbers, strings, and arrays (without holes or named
  properties) and objects of JSON trees, with the built-in prototypes.
\<close>

fun json :: "val \<Rightarrow> bool" where
  "json (VArr t xs nm pr) =
     (nm = [] \<and> pr = None \<and> (\<forall>x \<in> set xs. case x of None \<Rightarrow> False | Some v \<Rightarrow> json v))"
| "json (VObj t ps pr) = (pr = None \<and> (\<forall>p \<in> set ps. json (snd p)))"
| "json VUndef = False"
| "json (VBuiltin b) = False"
| "json v = True"

text \<open>
  \<open>k'\<close> addresses a sibling of \<open>k\<close> in the node \<open>x\<close>: another element of an array, another
  property of an object.
\<close>

definition sibling :: "val \<Rightarrow> key \<Rightarrow> key \<Rightarrow> bool" where
  "sibling x k k' \<longleftrightarrow>
     (case x of
        VArr t xs nm pr \<Rightarrow> (case array_index k' of None \<Rightarrow> False | Some j \<Rightarrow> array_index k \<noteq> Some j)
      | VObj t ps pr \<Rightarrow> key_name k' \<noteq> key_name k
      | _ \<Rightarrow> False)"

text \<open>
  The copy that \<open>setAtPath\<close> makes of \<open>cur\<close> for the key \<open>k\<close> is an array. An assignment
  \<open>x[k] = v\<close> is an ordinary write if it writes neither the \<open>length\<close> of an array nor
  \<open>__proto__\<close>; \<open>plain_key\<close> says so of the copy of \<open>cur\<close>.
\<close>

definition array_copy :: "runtime \<Rightarrow> val \<Rightarrow> key \<Rightarrow> bool" where
  "array_copy rt cur k \<longleftrightarrow> isArray rt cur \<or> (\<not> isObject rt cur \<and> is_number k)"

definition writable :: "runtime \<Rightarrow> val \<Rightarrow> key \<Rightarrow> bool" where
  "writable rt x k \<longleftrightarrow>
     container x \<and> \<not> (isArray rt x \<and> key_name k = ''length'') \<and> key_name k \<noteq> ''__proto__''"

definition plain_key :: "runtime \<Rightarrow> val \<Rightarrow> key \<Rightarrow> bool" where
  "plain_key rt cur k \<longleftrightarrow>
     \<not> (array_copy rt cur k \<and> key_name k = ''length'') \<and> key_name k \<noteq> ''__proto__''"

text \<open>
  The walk of \<open>setAtPath\<close> along the path makes ordinary writes only, and none of its reads
  throws.
\<close>

fun plain_path :: "runtime \<Rightarrow> val \<Rightarrow> key list \<Rightarrow> bool" where
  "plain_path rt cur [] = True"
| "plain_path rt cur (k # ks) =
     (plain_key rt cur k \<and>
      (case opt_get rt cur k of Inl e \<Rightarrow> False | Inr nxt \<Rightarrow> plain_path rt nxt ks))"

text \<open>
  The same, except that the last segment may be the \<open>length\<close> of an array when the value
  is a length that an array can have.
\<close>

definition valid_length :: "val \<Rightarrow> bool" where
  "valid_length v = (case v of VNum n \<Rightarrow> 0 \<le> n \<and> n < 4294967296 | _ \<Rightarrow> False)"

definition last_key :: "runtime \<Rightarrow> val \<Rightarrow> key \<Rightarrow> val \<Rightarrow> bool" where
  "last_key rt cur k v \<longleftrightarrow>
     key_name k \<noteq> ''__proto__'' \<and>
     (array_copy rt cur k \<and> key_name k = ''length'' \<longrightarrow> valid_length v)"

fun settable :: "runtime \<Rightarrow> val \<Rightarrow> key list \<Rightarrow> val \<Rightarrow> bool" where
  "settable rt cur [] v = True"
| "settable rt cur (k # ks) v =
     ((if ks = [] then last_key rt cur k v else plain_key rt cur k) \<and>
      (case opt_get rt cur k of Inl e \<Rightarrow> False | Inr nxt \<Rightarrow> settable rt nxt ks v))"

text \<open>
  \<open>r\<close> is a correct result of setting \<open>v\<close> at \<open>parts\<close> below \<open>cur\<close>: along the path it has
  containers allocated at \<open>c\<close> or later, which own the next one under the key of the path
  and, where the write is an ordinary one, whose other elements and properties are those
  of the node they copy; at the end it has \<open>v\<close>.
\<close>

fun chain :: "runtime \<Rightarrow> nat \<Rightarrow> val \<Rightarrow> key list \<Rightarrow> val \<Rightarrow> val \<Rightarrow> bool" where
  "chain rt c cur [] v r = (r = v)"
| "chain rt c cur (k # ks) v r =
     (container r \<and> (\<exists>t. tag_of r = Some t \<and> c \<le> t) \<and>
      (plain_key rt cur k \<longrightarrow> (\<forall>k'. sibling cur k k' \<longrightarrow> own_get r k' = own_get cur k')) \<and>
      (\<exists>nxt cur'. own_get r k = Some nxt \<and> opt_get rt cur k = Inr cur' \<and> chain rt c cur' ks v nxt))"

text \<open>
  A key for a number of at least \<open>2^53\<close>, and the keys that are their own reading:
  \<open>splitPath\<close> of their name gives them back.
\<close>

fun is_big :: "key \<Rightarrow> bool" where
  "is_big (KBig s) = True"
| "is_big k = False"

definition wf_key :: "key \<Rightarrow> bool" where
  "wf_key k = (case k of KNum n \<Rightarrow> n < 9007199254740992
               | KBig s \<Rightarrow> False
               | KStr s \<Rightarrow> CHR ''.'' \<notin> set s \<and> \<not> (s \<noteq> [] \<and> list_all is_digit s))"

text \<open>
  \<open>k\<close> is the index of an element of the array \<open>parent\<close> that is followed by an element
  other than \<open>undefined\<close>: \<open>splice\<close> moves that element into its place. \<open>empty_like\<close> is an
  empty array or object like the copy that \<open>deleteAtPath\<close> makes of \<open>parent\<close>: what can be
  read from it is inherited.
\<close>

definition shifts :: "runtime \<Rightarrow> val \<Rightarrow> key \<Rightarrow> bool" where
  "shifts rt parent k =
     (isArray rt parent \<and>
      (case k of
         KNum n \<Rightarrow> Suc n < length (elements rt parent) \<and>
                   (case elements rt parent ! Suc n of None \<Rightarrow> False | Some v \<Rightarrow> v \<noteq> VUndef)
       | _ \<Rightarrow> False))"

definition empty_like :: "runtime \<Rightarrow> val \<Rightarrow> val" where
  "empty_like rt parent = (if isArray rt parent then VArr 0 [] [] None else VObj 0 [] None)"

text \<open>
  The identities in use in a value, the node that the first \<open>i\<close> segments of a path
  reach, and the node that all segments but the last reach.
\<close>

fun tags :: "val \<Rightarrow> nat set" where
  "tags (VArr t xs nm pr) =
     insert t ((\<Union>x \<in> set xs. case x of None \<Rightarrow> {} | Some v \<Rightarrow> tags v) \<union>
               (\<Union>p \<in> set nm. tags (snd p)) \<union>
               (case pr of None \<Rightarrow> {} | Some q \<Rightarrow> tags q))"
| "tags (VObj t ps pr) =
     insert t ((\<Union>p \<in> set ps. tags (snd p)) \<union> (case pr of None \<Rightarrow> {} | Some q \<Rightarrow> tags q))"
| "tags v = {}"

definition node_at :: "runtime \<Rightarrow> val \<Rightarrow> string \<Rightarrow> nat \<Rightarrow> val" where
  "node_at rt x p i = (case get_parts rt x (take i (splitPath rt p)) of Inl e \<Rightarrow> VUndef | Inr n \<Rightarrow> n)"

definition parent_at :: "runtime \<Rightarrow> val \<Rightarrow> string \<Rightarrow> val" where
  "parent_at rt root p = node_at rt root p (length (splitPath rt p) - 1)"

text \<open>
  An example state: \<open>{ a: { b: 1 }, s: [{ id: 7 }, { id: 8 }] }\<close>, with the identities
  \<open>0\<close> to \<open>4\<close> in use.
\<close>

definition example_state :: val where
  "example_state =
     VObj 0 [(''a'', VObj 1 [(''b'', VNum 1)] None),
             (''s'', VArr 2 [Some (VObj 3 [(''id'', VNum 7)] None), Some (VObj 4 [(''id'', VNum 8)] None)] [] None)]
       None"

section \<open>Properties of the port bus\<close>

lemma for_each_last_val: "last_val (for_each port ls payload s) = last_val s"
proof (induction ls arbitrary: s)
  case Nil
  show ?case by simp
next
  case (Cons l ls)
  have step: "last_val (call_listener l payload s) = last_val s"
    by (cases l) (simp_all add: unsubscribe_def Let_def split: option.splits)
  show ?case
    by (simp add: Cons.IH step split: option.splits)
qed

lemma emitPort_snapshot: "getPortSnapshot port (emitPort port payload s) = Some payload"
  by (simp add: getPortSnapshot_def emitPort_def Let_def for_each_last_val split: option.splits)

text \<open>
  Claim C5. \<open>oncePort\<close> is documented as a one-shot subscription. When the port already
  has a last value, \<open>onPort\<close> replays it into the wrapper while \<open>off\<close> is still \<open>null\<close>, so
  the wrapper stays subscribed and the next emit invokes the callback a second time:
  after \<open>emitPort p 1; oncePort p cb; emitPort p 2\<close> the callback has run twice.
\<close>

theorem oncePort_replay_invokes_twice:
  "calls (emitPort ''p'' (2::nat) (oncePort ''p'' 0 (emitPort ''p'' 1 init_shared))) = [(0, 1), (0, 2)]
   \<and> invocations 0 (emitPort ''p'' (2::nat) (oncePort ''p'' 0 (emitPort ''p'' 1 init_shared))) = 2"
  by (simp add: emitPort_def oncePort_def onPort_def init_shared_def unsubscribe_def
      invocations_def Let_def)

text \<open>
  Claim C9, as stated: the snapshot would be readable under \<open>store:<name>:state\<close>. It is
  not: after the coordinator of store \<open>cart\<close> has handled a state message, that channel
  has no value.
\<close>

theorem store_channel_counterexample:
  "getPortSnapshot ''store:cart:state''
     (bus (on_worker_message ''cart'' (State (5::nat)) init_coordinator)) \<noteq> Some 5"
  by (simp add: getPortSnapshot_def emitPort_def portNameState_def init_coordinator_def
      init_shared_def Let_def)

text \<open>
  Claim C9, amended: every state message that the coordinator of store \<open>name\<close> receives
  is published on the channel \<open>2mqjs:store:<name>:state\<close>, and the snapshot of that
  channel is then the state received.
\<close>

theorem store_state_republished:
  "portNameState name = ''2mqjs:store:'' @ name @ '':state'' \<and>
   getPortSnapshot (portNameState name) (bus (on_worker_message name (State st) c)) = Some st"
  by (simp add: portNameState_def emitPort_snapshot)

section \<open>Properties of the task scheduler\<close>

lemma tasks_get_id: "tasks_get ts i = Some t \<Longrightarrow> task_id t = i"
  unfolding tasks_get_def by (induction ts) (auto split: if_splits)

lemma promise_all_Cons_Rejected: "promise_all (Rejected # os) = Rejected"
  by (simp add: promise_all_def)


subsection \<open>The retry loop\<close>

declare retry_loop.simps [simp del]

lemma retry_loop_0:
  "retry_loop t i aw 0 st =
     (case task_run t (runs st i) of
        Returns \<Rightarrow>
          ((Resolved, True, False), (invoke_run i st)\<lparr>done_ids := insert (task_id t) (done_ids st)\<rparr>)
      | NeverSettles \<Rightarrow> ((Pending, False, False), invoke_run i st)
      | ThrowsSync \<Rightarrow> ((Rejected, True, \<not> aw), invoke_run i st)
      | RejectsAsync \<Rightarrow> ((Rejected, True, False), invoke_run i st))"
  by (subst retry_loop.simps) (simp split: run_result.splits)

lemma retry_loop_Suc:
  "retry_loop t i aw (Suc n) st =
     (case task_run t (runs st i) of
        Returns \<Rightarrow>
          ((Resolved, True, False), (invoke_run i st)\<lparr>done_ids := insert (task_id t) (done_ids st)\<rparr>)
      | NeverSettles \<Rightarrow> ((Pending, False, False), invoke_run i st)
      | ThrowsSync \<Rightarrow> retry_loop t i True n (invoke_run i st)
      | RejectsAsync \<Rightarrow> retry_loop t i True n (invoke_run i st))"
  by (subst retry_loop.simps) (simp split: run_result.splits)

lemma invoke_run_simps:
  "tasks (invoke_run i st) = tasks st" "cache (invoke_run i st) = cache st"
  "running (invoke_run i st) = running st" "done_ids (invoke_run i st) = done_ids st"
  "runs (invoke_run i st) i = Suc (runs st i)"
  "j \<noteq> i \<Longrightarrow> runs (invoke_run i st) j = runs st j"
  by (simp_all add: invoke_run_def)

lemma retry_loop_frame:
  "tasks (snd (retry_loop t i aw n st)) = tasks st \<and>
   cache (snd (retry_loop t i aw n st)) = cache st \<and>
   running (snd (retry_loop t i aw n st)) = running st \<and>
   (\<forall>j. j \<noteq> i \<longrightarrow> runs (snd (retry_loop t i aw n st)) j = runs st j) \<and>
   done_ids st \<subseteq> done_ids (snd (retry_loop t i aw n st)) \<and>
   done_ids (snd (retry_loop t i aw n st)) \<subseteq> insert (task_id t) (done_ids st)"
proof (induction n arbitrary: st aw)
  case 0
  show ?case
    by (cases "task_run t (runs st i)") (auto simp: retry_loop_0 invoke_run_simps)
next
  case (Suc n)
  show ?case
  proof (cases "task_run t (runs st i)")
    case Returns
    then show ?thesis by (auto simp: retry_loop_Suc invoke_run_simps)
  next
    case ThrowsSync
    then show ?thesis
      using Suc.IH [of True "invoke_run i st"] by (simp add: retry_loop_Suc invoke_run_simps)
  next
    case RejectsAsync
    then show ?thesis
      using Suc.IH [of True "invoke_run i st"] by (simp add: retry_loop_Suc invoke_run_simps)
  next
    case NeverSettles
    then show ?thesis by (auto simp: retry_loop_Suc invoke_run_simps)
  qed
qed

lemma retry_loop_throw_step:
  "throws (task_run t (runs st i)) \<Longrightarrow>
   retry_loop t i aw (Suc n) st = retry_loop t i True n (invoke_run i st)"
  by (auto simp: throws_def retry_loop_Suc)


lemma retry_loop_async:
  "0 < n \<or> aw \<Longrightarrow> (\<And>k. throws (task_run t k)) \<Longrightarrow> snd (snd (fst (retry_loop t i aw n st))) = False"
proof (induction n arbitrary: st aw)
  case 0
  have "throws (task_run t (runs st i))" by (rule 0)
  with 0(1) show ?case
    by (auto simp: throws_def retry_loop_0)
next
  case (Suc n)
  have th: "throws (task_run t (runs st i))" by (rule Suc.prems)
  show ?case
    unfolding retry_loop_throw_step [OF th]
    using Suc.IH [of True "invoke_run i st"] Suc.prems
    by simp
qed



lemma retry_loop_invokes: "runs st i < runs (snd (retry_loop t i aw n st)) i"
proof (induction n arbitrary: st aw)
  case 0
  show ?case
    by (cases "task_run t (runs st i)") (simp_all add: retry_loop_0 invoke_run_simps)
next
  case (Suc n)
  have "runs (invoke_run i st) i < runs (snd (retry_loop t i True n (invoke_run i st))) i"
    by (rule Suc.IH)
  then have "runs st i < runs (snd (retry_loop t i True n (invoke_run i st))) i"
    by (simp add: invoke_run_simps)
  then show ?case
    by (cases "task_run t (runs st i)") (simp_all add: retry_loop_Suc invoke_run_simps)
qed

subsection \<open>What one execution changes\<close>

lemma iife_rest_frame:
  "tasks (snd (iife_rest i t r st)) = tasks st \<and>
   cache (snd (iife_rest i t r st)) = cache st \<and>
   running (snd (iife_rest i t r st)) = running st \<and>
   (\<forall>j. j \<noteq> i \<longrightarrow> runs (snd (iife_rest i t r st)) j = runs st j) \<and>
   done_ids st \<subseteq> done_ids (snd (iife_rest i t r st)) \<and>
   done_ids (snd (iife_rest i t r st)) \<subseteq> insert (task_id t) (done_ids st)"
  using retry_loop_frame [of t i "task_deps t \<noteq> []" "task_retry t" st]
    retry_loop_frame [of t i True "task_retry t" st]
  by (auto simp: iife_rest_def split: outcome.splits option.splits condition.splits)

lemma finish_frame:
  assumes "finish i t outs st = (out, st')"
  shows "tasks st' = tasks st" "running st' = running st"
    "j \<noteq> i \<Longrightarrow> runs st' j = runs st j" "j \<noteq> i \<Longrightarrow> cache st' j = cache st j"
    "done_ids st \<subseteq> done_ids st'" "done_ids st' \<subseteq> insert (task_id t) (done_ids st)"
proof -
  obtain s f y st1 where r: "iife_rest i t (promise_all outs) st = ((s, f, y), st1)"
    by (metis prod.exhaust)
  have st': "st' = st1\<lparr>cache := (cache st1)(i := (if y then None else Some (s, f)))\<rparr>"
    using assms by (simp add: finish_def r)
  have fr: "tasks st1 = tasks st" "cache st1 = cache st" "running st1 = running st"
    "\<And>j. j \<noteq> i \<Longrightarrow> runs st1 j = runs st j" "done_ids st \<subseteq> done_ids st1"
    "done_ids st1 \<subseteq> insert (task_id t) (done_ids st)"
    using iife_rest_frame [of i t "promise_all outs" st] by (simp_all add: r)
  show "tasks st' = tasks st" "running st' = running st"
    "j \<noteq> i \<Longrightarrow> runs st' j = runs st j" "j \<noteq> i \<Longrightarrow> cache st' j = cache st j"
    "done_ids st \<subseteq> done_ids st'" "done_ids st' \<subseteq> insert (task_id t) (done_ids st)"
    using fr by (simp_all add: st')
qed


lemma frame_refl: "frame st st"
  by (simp add: frame_def)

lemma frame_trans: "frame a b \<Longrightarrow> frame b c \<Longrightarrow> frame a c"
  unfolding frame_def by (metis subsetD subset_trans)

lemma frame_single_step:
  assumes nd: "i \<notin> done_ids st" and nc: "cache st i = None"
    and t: "tasks_get (tasks st) i = Some t"
    and mid: "frame (begin_inflight i st) st2"
    and fin: "finish i t outs st2 = (out, st3)"
  shows "frame st st3"
proof -
  note f = finish_frame [OF fin]
  have b: "tasks (begin_inflight i st) = tasks st" "running (begin_inflight i st) = running st"
    "done_ids (begin_inflight i st) = done_ids st" "runs (begin_inflight i st) = runs st"
    "\<And>j. j \<noteq> i \<Longrightarrow> cache (begin_inflight i st) j = cache st j"
    by (simp_all add: begin_inflight_def)
  have "tasks st3 = tasks st" "running st3 = running st"
    using f(1,2) mid b by (simp_all add: frame_def)
  moreover have "done_ids st \<subseteq> done_ids st3"
    using f(5) mid b by (auto simp: frame_def)
  moreover have "cache st3 j \<noteq> None" if "cache st j \<noteq> None" for j
  proof -
    from that nc have ji: "j \<noteq> i" by auto
    then have "cache (begin_inflight i st) j \<noteq> None" using that b by simp
    then have "cache st2 j \<noteq> None" using mid by (simp add: frame_def)
    then show ?thesis using f(4) [OF ji] by simp
  qed
  moreover have "runs st3 j = runs st j" if "j \<in> done_ids st" for j
  proof -
    from that nd have ji: "j \<noteq> i" by auto
    have "runs st2 j = runs st j" using mid that b by (simp add: frame_def)
    then show ?thesis using f(3) [OF ji] by simp
  qed
  ultimately show ?thesis by (simp add: frame_def)
qed

lemma runSingle_frame:
  "runSingle n i st = Some (out, st') \<Longrightarrow> frame st st'"
  "run_each n xs st = Some (outs, st'') \<Longrightarrow> frame st st''"
proof (induction n i st and n xs st arbitrary: out st' and outs st'' rule: runSingle_run_each.induct)
  case (1 i st)
  then show ?case by simp
next
  case (2 n i st)
  show ?case
  proof (cases "i \<in> done_ids st")
    case True
    with 2(2) show ?thesis by (simp add: frame_refl)
  next
    case nd: False
    show ?thesis
    proof (cases "cache st i")
      case (Some e)
      with nd 2(2) show ?thesis by (simp add: frame_refl)
    next
      case nc: None
      show ?thesis
      proof (cases "tasks_get (tasks st) i")
        case None
        with nd nc 2(2) have "st' = snd (no_task i (begin_inflight i st))" by auto
        then show ?thesis
          using nd nc by (auto simp: frame_def no_task_def begin_inflight_def)
      next
        case (Some t)
        from nd nc Some 2(2) obtain outs st2 where
          re: "run_each n (task_deps t) (begin_inflight i st) = Some (outs, st2)"
          and fin: "finish i t outs st2 = (out, st')"
          by (auto split: option.splits)
        have "frame (begin_inflight i st) st2"
          by (rule 2(1) [OF nd nc Some re])
        then show ?thesis
          by (rule frame_single_step [OF nd nc Some _ fin])
      qed
    qed
  qed
next
  case (3 n st)
  then show ?case by (simp add: frame_refl)
next
  case (4 n d ds st)
  from 4(3) obtain out st1 outs' where
    a: "runSingle n d st = Some (out, st1)" and b: "run_each n ds st1 = Some (outs', st'')"
    by (auto split: option.splits)
  have "frame st st1" by (rule 4(1) [OF a])
  moreover have "frame st1 st''" by (rule 4(2) [OF a _ b]) simp
  ultimately show ?case by (rule frame_trans)
qed




subsection \<open>Enough fuel\<close>

lemma finite_unstarted: "finite (unstarted st)"
  by (simp add: unstarted_def)

lemma card_unstarted: "card (unstarted st) \<le> length (tasks st)"
proof -
  have "card (unstarted st) \<le> card (task_id ` set (tasks st))"
    by (rule card_mono) (auto simp: unstarted_def)
  also have "\<dots> \<le> card (set (tasks st))" by (rule card_image_le) simp
  also have "\<dots> \<le> length (tasks st)" by (rule card_length)
  finally show ?thesis .
qed

lemma tasks_get_mem: "tasks_get ts i = Some t \<Longrightarrow> t \<in> set ts"
  unfolding tasks_get_def by (induction ts) (auto split: if_splits)

lemma unstarted_frame: "frame st st' \<Longrightarrow> unstarted st' \<subseteq> unstarted st"
  unfolding frame_def unstarted_def by (metis (mono_tags, lifting) Collect_mono)

lemma unstarted_begin:
  assumes "tasks_get (tasks st) i = Some t" "cache st i = None"
  shows "card (unstarted (begin_inflight i st)) < card (unstarted st)"
proof -
  have i: "i \<in> unstarted st"
    using assms tasks_get_mem [OF assms(1)] tasks_get_id [OF assms(1)]
    by (auto simp: unstarted_def)
  have "unstarted (begin_inflight i st) \<subseteq> unstarted st - {i}"
    by (auto simp: unstarted_def begin_inflight_def)
  then have "card (unstarted (begin_inflight i st)) \<le> card (unstarted st - {i})"
    by (intro card_mono) (simp_all add: finite_unstarted)
  also have "\<dots> < card (unstarted st)"
    by (rule card_Diff1_less [OF finite_unstarted i])
  finally show ?thesis .
qed

lemma enough_fuel:
  "card (unstarted st) < n \<Longrightarrow> runSingle n i st \<noteq> None"
  "card (unstarted st) < n \<Longrightarrow> run_each n xs st \<noteq> None"
proof (induction n i st and n xs st rule: runSingle_run_each.induct)
  case (1 i st)
  then show ?case by simp
next
  case (2 n i st)
  show ?case
  proof (cases "i \<notin> done_ids st \<and> cache st i = None \<and> tasks_get (tasks st) i \<noteq> None")
    case False
    then show ?thesis by (auto split: option.splits)
  next
    case True
    then obtain t where t: "tasks_get (tasks st) i = Some t" and nd: "i \<notin> done_ids st"
      and nc: "cache st i = None" by auto
    have "card (unstarted (begin_inflight i st)) < n"
      using unstarted_begin [OF t nc] 2(2) by simp
    then have "run_each n (task_deps t) (begin_inflight i st) \<noteq> None"
      by (rule 2(1) [OF nd nc t])
    then show ?thesis using t nd nc by (auto split: option.splits)
  qed
next
  case (3 n st)
  then show ?case by simp
next
  case (4 n d ds st)
  from 4(1) [OF 4(3)] obtain out st1 where a: "runSingle n d st = Some (out, st1)" by auto
  have "frame st st1" by (rule runSingle_frame(1) [OF a])
  then have "card (unstarted st1) \<le> card (unstarted st)"
    by (intro card_mono unstarted_frame finite_unstarted)
  with 4(3) have "card (unstarted st1) < n" by simp
  then have "run_each n ds st1 \<noteq> None" by (rule 4(2) [OF a refl])
  with a show ?case by (auto split: option.splits)
qed

lemma run_each_length: "run_each n xs st = Some (outs, st') \<Longrightarrow> length outs = length xs"
  by (induction xs arbitrary: st outs) (auto split: option.splits)

lemma quiesce_simps:
  "tasks (quiesce st) = tasks st" "done_ids (quiesce st) = done_ids st"
  "runs (quiesce st) = runs st" "running (quiesce st) = running st"
  by (simp_all add: quiesce_def)

lemma runTasks_total:
  assumes "length (tasks st) < fuel"
  shows "\<exists>out st'. runTasks fuel stage st = Some (out, st')"
proof (cases "running st")
  case True
  then show ?thesis by (simp add: runTasks_def)
next
  case False
  have "unstarted (st\<lparr>running := True\<rparr>) = unstarted st" by (simp add: unstarted_def)
  then have "card (unstarted (st\<lparr>running := True\<rparr>)) < fuel"
    using card_unstarted [of st] assms by simp
  then have "run_each fuel (map task_id (select_tasks stage st)) (st\<lparr>running := True\<rparr>) \<noteq> None"
    by (rule enough_fuel(2))
  then show ?thesis
    using False by (auto simp: runTasks_def split: outcome.splits)
qed

lemma runTasks_done_frame:
  assumes r: "runTasks fuel stage st = Some (out, st')" and d: "i \<in> done_ids st"
  shows "runs st' i = runs st i \<and> i \<in> done_ids st'"
proof (cases "running st")
  case True
  with r d show ?thesis by (simp add: runTasks_def)
next
  case False
  with r obtain outs st1 where
    e: "run_each fuel (map task_id (select_tasks stage st)) (st\<lparr>running := True\<rparr>) = Some (outs, st1)"
    by (auto simp: runTasks_def split: option.splits)
  have f: "frame (st\<lparr>running := True\<rparr>) st1" by (rule runSingle_frame(2) [OF e])
  have "runs st1 i = runs st i \<and> i \<in> done_ids st1"
    using f d by (auto simp: frame_def)
  moreover have "runs st' = runs st1 \<and> done_ids st' = done_ids st1"
    using r False e by (auto simp: runTasks_def quiesce_simps split: outcome.splits)
  ultimately show ?thesis by simp
qed


subsection \<open>A task whose run always throws\<close>






subsection \<open>A failing task within a batch\<close>








subsection \<open>The claims about the scheduler\<close>

text \<open>
  Claim C1. Task \<open>A\<close> (stage \<open>ui\<close>) depends on task \<open>B\<close> (stage \<open>bootstrap\<close>), whose \<open>run\<close>
  rejects and which has no retries. \<open>runTasks('ui')\<close> covers \<open>A\<close> only. The failure of \<open>B\<close>
  rejects the \<open>Promise.all\<close> inside the execution of \<open>A\<close>, which leaves through \<open>finally\<close>
  without settling the in-flight promise of \<open>A\<close>; \<open>runSingle('A')\<close> awaits it for ever. So
  \<open>A\<close> is not marked done, as the claim says, but the batch never settles instead of
  rejecting, \<open>running\<close> stays set, and every later \<open>runTasks\<close> is refused. A batch
  without a stage does reject, through its own call of \<open>runSingle('B')\<close>.
\<close>

theorem dependency_failure_hangs:
  "(\<exists>st'. runTasks 3 (Some ''ui'') (registerTask failing_dep (registerTask dependent_task init_tasks))
            = Some (Pending, st') \<and>
         running st' \<and> ''A'' \<notin> done_ids st' \<and> runs st' ''A'' = 0 \<and> runs st' ''B'' = 1 \<and>
         runTasks 3 None st' = Some (Rejected, st'))
   \<and> (\<exists>st'. runTasks 3 None (registerTask failing_dep (registerTask dependent_task init_tasks))
            = Some (Rejected, st') \<and>
         \<not> running st' \<and> ''A'' \<notin> done_ids st' \<and> runs st' ''A'' = 0 \<and> runs st' ''B'' = 1)"
  by (simp add: runTasks_def select_tasks_def registerTask_def init_tasks_def begin_inflight_def
      finish_def iife_rest_def promise_all_def quiesce_def no_task_def tasks_get_def
      retry_loop.simps invoke_run_def dependent_task_def failing_dep_def eval_nat_numeral)

text \<open>
  Claim C8. While a batch is in progress (\<open>running\<close> is set), a call of \<open>runTasks\<close> is
  rejected at once: it starts no task and leaves the state, and with it the batch in
  progress, as it was.
\<close>

theorem runTasks_reentrant:
  "running st \<Longrightarrow> runTasks fuel stage st = Some (Rejected, st)"
  by (simp add: runTasks_def)

theorem runTasks_reentrant_witness:
  "runTasks 2 (Some ''ui'') ((registerTask flaky init_tasks)\<lparr>running := True\<rparr>)
     = Some (Rejected, (registerTask flaky init_tasks)\<lparr>running := True\<rparr>)"
  using runTasks_reentrant [of "(registerTask flaky init_tasks)\<lparr>running := True\<rparr>" 2 "Some ''ui''"]
  by simp

text \<open>
  Claim C10. Running an id under which no task is registered (and which is neither done
  nor in flight) resolves and adds the id to \<open>done\<close>; from then on \<open>runSingle\<close> of that id
  returns at once without changing anything, also after a task has been registered
  under it.
\<close>

theorem unknown_task_marked_done:
  assumes "tasks_get (tasks st) i = None" and "i \<notin> done_ids st" and "cache st i = None"
  shows "runSingle (Suc n) i st = Some (Resolved, st\<lparr>done_ids := insert i (done_ids st)\<rparr>) \<and>
         (\<forall>t m. runSingle (Suc m) i (registerTask t (st\<lparr>done_ids := insert i (done_ids st)\<rparr>))
                  = Some (Resolved, registerTask t (st\<lparr>done_ids := insert i (done_ids st)\<rparr>)))"
proof -
  have "(cache st)(i := None) = cache st"
    using assms(3) by (simp add: fun_upd_idem)
  then have "no_task i (begin_inflight i st) = (Resolved, st\<lparr>done_ids := insert i (done_ids st)\<rparr>)"
    by (simp add: no_task_def begin_inflight_def)
  then have a: "runSingle (Suc n) i st = Some (Resolved, st\<lparr>done_ids := insert i (done_ids st)\<rparr>)"
    using assms by simp
  have b: "runSingle (Suc m) i (registerTask t (st\<lparr>done_ids := insert i (done_ids st)\<rparr>))
         = Some (Resolved, registerTask t (st\<lparr>done_ids := insert i (done_ids st)\<rparr>))" for t m
    by (simp add: registerTask_def)
  from a b show ?thesis by blast
qed

theorem unknown_task_marked_done_witness:
  "runSingle 1 ''ghost'' init_tasks = Some (Resolved, init_tasks\<lparr>done_ids := {''ghost''}\<rparr>) \<and>
   runSingle 1 ''ghost'' (registerTask flaky (init_tasks\<lparr>done_ids := {''ghost''}\<rparr>))
     = Some (Resolved, registerTask flaky (init_tasks\<lparr>done_ids := {''ghost''}\<rparr>))"
proof -
  have h: "tasks_get (tasks init_tasks) ''ghost'' = None" "''ghost'' \<notin> done_ids init_tasks"
    "cache init_tasks ''ghost'' = None"
    by (simp_all add: init_tasks_def tasks_get_def)
  have d: "insert ''ghost'' (done_ids init_tasks) = {''ghost''}"
    by (simp add: init_tasks_def)
  show ?thesis
    using unknown_task_marked_done [OF h, of 0] by (simp add: d)
qed

text \<open>
  Claim C7. Once an id is in \<open>done\<close>, a call of \<open>runTasks\<close>, with any stage or none,
  returns (given fuel for the tasks registered) without invoking the \<open>run\<close> of that id,
  and the id is still in \<open>done\<close> afterwards, so the same holds for every later call;
  registering a task keeps it so as well. \<open>resetTasks\<close> empties \<open>done\<close> and the cache, after
  which running the id invokes \<open>run\<close> again (shown for a task without dependencies and
  without \<open>when\<close>).
\<close>

theorem done_never_rerun:
  "(i \<in> done_ids st \<and> length (tasks st) < fuel \<longrightarrow>
      (\<exists>out st'. runTasks fuel stage st = Some (out, st') \<and> runs st' i = runs st i \<and> i \<in> done_ids st'))
   \<and> (i \<in> done_ids st \<longrightarrow> i \<in> done_ids (registerTask u st) \<and> runs (registerTask u st) = runs st)
   \<and> done_ids (resetTasks st) = {} \<and> cache (resetTasks st) i = None
   \<and> (tasks_get (tasks st) i = Some t \<and> task_deps t = [] \<and> task_when t = None \<longrightarrow>
        (\<exists>out st'. runSingle (Suc m) i (resetTasks st) = Some (out, st') \<and> runs st i < runs st' i))"
proof -
  have a: "\<exists>out st'. runTasks fuel stage st = Some (out, st') \<and> runs st' i = runs st i \<and> i \<in> done_ids st'"
    if "i \<in> done_ids st" "length (tasks st) < fuel"
  proof -
    from runTasks_total [OF that(2)] obtain out st' where r: "runTasks fuel stage st = Some (out, st')"
      by blast
    from runTasks_done_frame [OF r that(1)] r show ?thesis by blast
  qed
  have b: "i \<in> done_ids (registerTask u st) \<and> runs (registerTask u st) = runs st" if "i \<in> done_ids st"
    using that by (simp add: registerTask_def)
  have c: "done_ids (resetTasks st) = {} \<and> cache (resetTasks st) i = None"
    by (simp add: resetTasks_def)
  have d: "\<exists>out st'. runSingle (Suc m) i (resetTasks st) = Some (out, st') \<and> runs st i < runs st' i"
    if t: "tasks_get (tasks st) i = Some t" and deps: "task_deps t = []" and w: "task_when t = None"
  proof -
    let ?b = "begin_inflight i (resetTasks st)"
    obtain out st' where fin: "finish i t [] ?b = (out, st')" by (metis prod.exhaust)
    have run: "runSingle (Suc m) i (resetTasks st) = Some (out, st')"
      using t deps fin by (simp add: resetTasks_def)
    obtain s f y st1 where r: "retry_loop t i False (task_retry t) ?b = ((s, f, y), st1)"
      by (metis prod.exhaust)
    have "runs ?b i < runs st1 i"
      using retry_loop_invokes [of ?b i t False "task_retry t"] by (simp add: r)
    moreover have "runs st' = runs st1"
      using fin w deps by (auto simp: finish_def iife_rest_def promise_all_def r)
    moreover have "runs ?b = runs st" by (simp add: begin_inflight_def resetTasks_def)
    ultimately have "runs st i < runs st' i" by simp
    with run show ?thesis by blast
  qed
  from a b c d show ?thesis by blast
qed


theorem done_never_rerun_witness:
  "(\<exists>out st'. runTasks 2 (Some ''ui'') ((registerTask recovers init_tasks)\<lparr>done_ids := {''recovers''}\<rparr>)
        = Some (out, st') \<and> runs st' ''recovers'' = 0 \<and> ''recovers'' \<in> done_ids st')
   \<and> ''recovers'' \<in> done_ids (registerTask flaky ((registerTask recovers init_tasks)\<lparr>done_ids := {''recovers''}\<rparr>))
   \<and> done_ids (resetTasks ((registerTask recovers init_tasks)\<lparr>done_ids := {''recovers''}\<rparr>)) = {}
   \<and> (\<exists>out st'. runSingle (Suc 0) ''recovers''
          (resetTasks ((registerTask recovers init_tasks)\<lparr>done_ids := {''recovers''}\<rparr>)) = Some (out, st')
        \<and> 0 < runs st' ''recovers'')"
proof -
  let ?s = "(registerTask recovers init_tasks)\<lparr>done_ids := {''recovers''}\<rparr>"
  have h: "''recovers'' \<in> done_ids ?s" "length (tasks ?s) < 2" "runs ?s ''recovers'' = 0"
    "tasks_get (tasks ?s) ''recovers'' = Some recovers" "task_deps recovers = []"
    "task_when recovers = None"
    by (simp_all add: registerTask_def init_tasks_def tasks_get_def recovers_def)
  note t = done_never_rerun [where i = "''recovers''" and st = ?s and fuel = 2
      and stage = "Some ''ui''" and u = flaky and t = recovers and m = 0]
  have a: "\<exists>out st'. runTasks 2 (Some ''ui'') ?s = Some (out, st') \<and>
      runs st' ''recovers'' = runs ?s ''recovers'' \<and> ''recovers'' \<in> done_ids st'"
    using t h(1,2) by blast
  have b: "''recovers'' \<in> done_ids (registerTask flaky ?s)"
    using t h(1) by blast
  have c: "done_ids (resetTasks ?s) = {}"
    using t by blast
  have d: "\<exists>out st'. runSingle (Suc 0) ''recovers'' (resetTasks ?s) = Some (out, st') \<and>
      runs ?s ''recovers'' < runs st' ''recovers''"
    using t h(4-6) by blast
  have z: "runs (registerTask recovers init_tasks) ''recovers'' = 0"
    by (simp add: registerTask_def init_tasks_def)
  show ?thesis
    using a b c d by (simp del: runSingle.simps add: z)
qed





section \<open>Properties of the path operations\<close>

subsection \<open>Decimal names of numeric keys\<close>

lemma digit_cases: "d < 10 \<Longrightarrow> d = 0 \<or> d = 1 \<or> d = 2 \<or> d = 3 \<or> d = 4 \<or> d = 5 \<or> d = 6 \<or> d = 7 \<or> d = 8 \<or> d = (9::nat)"
  by arith

lemma digit_char_props:
  assumes "d < 10"
  shows "is_digit (digit_char d)" "digit_val (digit_char d) = d" "digit_char d \<noteq> CHR ''.''"
  using digit_cases [OF assms]
  by (auto simp: is_digit_def digit_char_def digit_val_def digit_chars_def)

lemma nat_of_digits_snoc: "nat_of_digits (s @ [c]) = 10 * nat_of_digits s + digit_val c"
  by (simp add: nat_of_digits_def)

lemma digits_props:
  "digits n \<noteq> [] \<and> list_all is_digit (digits n) \<and> nat_of_digits (digits n) = n \<and>
   CHR ''.'' \<notin> set (digits n)"
proof (induction n rule: digits.induct)
  case (1 n)
  show ?case
  proof (cases "n < 10")
    case True
    then have d: "digits n = [digit_char n]" by (subst digits.simps) simp
    show ?thesis
      using digit_char_props [OF True] by (simp add: d nat_of_digits_def)
  next
    case False
    then have d: "digits n = digits (n div 10) @ [digit_char (n mod 10)]"
      by (subst digits.simps) simp
    have m: "n mod 10 < 10" by simp
    show ?thesis
      using 1 [OF False] digit_char_props [OF m]
      by (simp add: d nat_of_digits_snoc)
  qed
qed

lemma digits_not_word: "digits n \<noteq> ''length''" "digits n \<noteq> ''__proto__''"
proof -
  have "list_all is_digit (digits n)" using digits_props by simp
  moreover have "\<not> list_all is_digit ''length''" "\<not> list_all is_digit ''__proto__''"
    by (simp_all add: is_digit_def digit_chars_def)
  ultimately show "digits n \<noteq> ''length''" "digits n \<noteq> ''__proto__''" by metis+
qed

lemma array_index_name: "array_index k = Some n \<Longrightarrow> key_name k = digits n"
  by (cases k) (auto simp: array_index_def split: if_splits)

lemma array_index_plain:
  "array_index k = Some n \<Longrightarrow> key_name k \<noteq> ''length'' \<and> key_name k \<noteq> ''__proto__''"
  using array_index_name [of k n] digits_not_word [of n] by simp

subsection \<open>Writing a property\<close>

lemma map_of_prop_set: "map_of (prop_set s v ps) = (map_of ps)(s \<mapsto> v)"
  by (induction ps) (auto simp: fun_eq_iff)

lemma map_of_prop_del: "map_of (prop_del s ps) s = None"
  unfolding prop_del_def by (induction ps) auto

lemma extend_nth_same: "n \<ge> length xs \<Longrightarrow> (xs @ replicate (n - length xs) w @ [v]) ! n = v"
  by (simp add: nth_append)

lemma extend_nth_other:
  assumes "n \<ge> length xs" and "j \<noteq> n"
  shows "(if j < length (xs @ replicate (n - length xs) None @ [v])
          then (xs @ replicate (n - length xs) None @ [v]) ! j else None)
         = (if j < length xs then xs ! j else None)"
  using assms by (auto simp: nth_append)

lemma container_cases:
  assumes "container x"
  obtains (Arr) t xs nm pr where "x = VArr t xs nm pr" | (Obj) t ps pr where "x = VObj t ps pr"
  using assms by (cases x) simp_all

lemma container_not_nullish: "container x \<Longrightarrow> \<not> nullish x"
  by (cases x) (simp_all add: nullish_def)

lemma get_prop_own: "container x \<Longrightarrow> own_get x k = Some v \<Longrightarrow> get_prop rt x k = Inr v"
  by (cases x) (simp_all add: get_prop_def)

lemma put_prop_ok:
  assumes "writable rt x k"
  shows "\<exists>y. put_prop rt x k v = Inr y \<and> own_get y k = Some v \<and> tag_of y = tag_of x \<and>
             container y \<and> isArray rt y = isArray rt x \<and>
             (\<forall>k'. sibling x k k' \<longrightarrow> own_get y k' = own_get x k')"
proof -
  from assms have c: "container x" and np: "key_name k \<noteq> ''__proto__''"
    and nl: "\<not> (isArray rt x \<and> key_name k = ''length'')"
    by (simp_all add: writable_def)
  from c show ?thesis
  proof (cases rule: container_cases)
    case (Obj t ps pr)
    have "\<not> runs_setter rt x (key_name k)" using np by (simp add: runs_setter_def)
    then show ?thesis
      using Obj by (auto simp: sibling_def map_of_prop_set isArray_def)
  next
    case (Arr t xs nm pr)
    have ns: "\<not> runs_setter rt x (key_name k)" using np by (simp add: runs_setter_def)
    show ?thesis
    proof (cases "array_index k")
      case (Some n)
      show ?thesis
      proof (cases "n < length xs")
        case True
        with Arr Some show ?thesis
          by (auto simp: sibling_def isArray_def split: option.splits)
      next
        case False
        then have ge: "length xs \<le> n" by simp
        have same: "(xs @ replicate (n - length xs) None @ [Some v]) ! n = Some v"
          by (rule extend_nth_same [OF ge])
        have other: "\<And>j. j \<noteq> n \<Longrightarrow>
            (if j < length (xs @ replicate (n - length xs) None @ [Some v])
             then (xs @ replicate (n - length xs) None @ [Some v]) ! j else None)
            = (if j < length xs then xs ! j else None)"
          by (rule extend_nth_other [OF ge])
        have len: "n < length (xs @ replicate (n - length xs) None @ [Some v])"
          using ge by simp
        show ?thesis
          using Arr Some False same other len
          by (auto simp: sibling_def isArray_def split: option.splits simp del: length_append)
      qed
    next
      case None
      from nl Arr have "key_name k \<noteq> ''length''" by (simp add: isArray_def)
      with Arr None ns show ?thesis
        by (auto simp: sibling_def isArray_def map_of_prop_set split: option.splits)
    qed
  qed
qed

lemma sibling_kind:
  "container x \<Longrightarrow> container y \<Longrightarrow> isArray rt y = isArray rt x \<Longrightarrow> sibling y k k' = sibling x k k'"
  by (cases x; cases y) (simp_all add: sibling_def isArray_def)

lemma writable_kind:
  "container y \<Longrightarrow> isArray rt y = isArray rt x \<Longrightarrow> writable rt x k \<Longrightarrow> writable rt y k"
  by (simp add: writable_def)

lemma copy_of_props:
  "plain_key rt cur k \<Longrightarrow> writable rt (copy_of rt c cur k) k"
  "tag_of (copy_of rt c cur k) = Some c"
  "sibling cur k k' \<Longrightarrow> own_get (copy_of rt c cur k) k' = own_get cur k'"
  "sibling cur k k' \<Longrightarrow> sibling (copy_of rt c cur k) k k'"
  by (cases cur; simp add: copy_of_def writable_def sibling_def isArray_def isObject_def
      array_copy_def plain_key_def elements_def enumerable_def split: option.splits shape.splits)+

lemma put_length_ok:
  assumes "key_name k = ''length''" and "valid_length v"
  shows "\<exists>y. put_prop rt (VArr t xs nm pr) k v = Inr y \<and> own_get y k = Some v \<and>
             tag_of y = Some t \<and> container y"
proof -
  have ai: "array_index k = None"
    using assms(1) array_index_plain [of k] by (cases "array_index k") auto
  from assms(2) obtain n where v: "v = VNum n" and n: "0 \<le> n" "n < 4294967296"
    by (cases v) (simp_all add: valid_length_def)
  let ?ys = "take (nat n) xs @ replicate (nat n - length xs) None"
  have "length ?ys = nat n" by simp
  then have len: "int (length ?ys) = n" using n by simp
  have "array_set_length rt xs v = Inr ?ys"
    using v n by (simp add: array_set_length_def to_number_def)
  then have "put_prop rt (VArr t xs nm pr) k v = Inr (VArr t ?ys nm pr)"
    using ai assms(1) by simp
  moreover have "own_get (VArr t ?ys nm pr) k = Some v"
    using ai assms(1) len v by (simp del: length_append)
  ultimately show ?thesis by simp
qed

lemma last_put_ok:
  assumes "last_key rt cur k v"
  shows "\<exists>y. put_prop rt (copy_of rt c cur k) k v = Inr y \<and> own_get y k = Some v \<and>
             tag_of y = Some c \<and> container y \<and>
             (plain_key rt cur k \<longrightarrow> (\<forall>k'. sibling cur k k' \<longrightarrow> own_get y k' = own_get cur k'))"
proof (cases "plain_key rt cur k")
  case True
  let ?copy = "copy_of rt c cur k"
  have w: "writable rt ?copy k" by (rule copy_of_props(1) [OF True])
  from put_prop_ok [OF w, of v] obtain y where
    put: "put_prop rt ?copy k v = Inr y" and gy: "own_get y k = Some v"
    and ty: "tag_of y = tag_of ?copy" and cy: "container y"
    and sy: "\<forall>k'. sibling ?copy k k' \<longrightarrow> own_get y k' = own_get ?copy k'"
    by blast
  have "own_get y k' = own_get cur k'" if "sibling cur k k'" for k'
    using sy copy_of_props(3,4) [OF that, of rt c] by simp
  with put gy ty cy show ?thesis by (simp add: copy_of_props(2))
next
  case False
  with assms have a: "array_copy rt cur k" and l: "key_name k = ''length''" and v: "valid_length v"
    by (auto simp: last_key_def plain_key_def)
  have "\<exists>xs. copy_of rt c cur k = VArr c xs [] None"
  proof (cases "isArray rt cur")
    case True
    then show ?thesis by (simp add: copy_of_def)
  next
    case False
    with a have "\<not> isObject rt cur" "is_number k" by (simp_all add: array_copy_def)
    with False show ?thesis by (simp add: copy_of_def)
  qed
  then obtain xs where "copy_of rt c cur k = VArr c xs [] None" by blast
  with put_length_ok [OF l v, of rt c xs "[]" None] False show ?thesis by simp
qed

subsection \<open>The result of setAtPath\<close>

lemma next_value_ok:
  assumes "opt_get rt cur k = Inr cur'"
  shows "\<exists>nxt c1. next_value rt c cur k rest v = Inr (nxt, c1) \<and> c \<le> c1 \<and> (rest = [] \<longrightarrow> nxt = v)"
proof (cases rest)
  case Nil
  then show ?thesis by (simp add: next_value_def)
next
  case (Cons a list)
  then show ?thesis
    using assms by (cases "nullish cur'") (simp_all add: next_value_def)
qed

lemma build_relink_chain:
  assumes "settable rt cur parts v" and "parts \<noteq> []" and "c0 \<le> c"
  shows "\<exists>stack c' st. build rt c cur parts v = Inr (stack, c') \<and> relink rt stack = Inr st \<and>
           st \<noteq> [] \<and> chain rt c0 cur parts v (fst (hd st))"
  using assms
proof (induction parts arbitrary: c cur)
  case Nil
  then show ?case by simp
next
  case (Cons k rest)
  from Cons.prems(1) obtain cur' where
    key: "if rest = [] then last_key rt cur k v else plain_key rt cur k"
    and og: "opt_get rt cur k = Inr cur'"
    and tl_ok: "settable rt cur' rest v"
    by (auto split: sum.splits)
  from next_value_ok [OF og, of c rest v] obtain nxt c1 where
    nv: "next_value rt c cur k rest v = Inr (nxt, c1)" and cc: "c \<le> c1"
    and last: "rest = [] \<longrightarrow> nxt = v"
    by blast
  have c1: "c0 \<le> c1" using cc Cons.prems(3) by simp
  let ?copy = "copy_of rt c1 cur k"
  show ?case
  proof (cases "rest = []")
    case True
    then have nxt: "nxt = v" using last by simp
    from key True have "last_key rt cur k v" by simp
    from last_put_ok [OF this, of c1] obtain y where
      put: "put_prop rt ?copy k v = Inr y" and gy: "own_get y k = Some v"
      and ty: "tag_of y = Some c1" and cy: "container y"
      and sy: "plain_key rt cur k \<longrightarrow> (\<forall>k'. sibling cur k k' \<longrightarrow> own_get y k' = own_get cur k')"
      by blast
    have b: "build rt c cur (k # rest) v = Inr ([(y, k)], Suc c1)"
      using True nv put og nxt by simp
    have "chain rt c0 cur (k # rest) v y"
      using True gy ty c1 cy og sy by simp
    with b show ?thesis by simp
  next
    case False
    with key have pk: "plain_key rt cur k" by simp
    have w: "writable rt ?copy k" by (rule copy_of_props(1) [OF pk])
    from put_prop_ok [OF w, of nxt] obtain y where
      put: "put_prop rt ?copy k nxt = Inr y" and gy: "own_get y k = Some nxt"
      and ty: "tag_of y = tag_of ?copy" and cy: "container y"
      and ay: "isArray rt y = isArray rt ?copy"
      and sy: "\<forall>k'. sibling ?copy k k' \<longrightarrow> own_get y k' = own_get ?copy k'"
      by blast
    have ccopy: "container ?copy" using w by (simp add: writable_def)
    have wy: "writable rt y k" by (rule writable_kind [OF cy ay w])
    have ty': "tag_of y = Some c1" using ty by (simp add: copy_of_props(2))
    from Cons.IH [OF tl_ok False, of "Suc c1"] c1 obtain stack' c' st' where
      b': "build rt (Suc c1) cur' rest v = Inr (stack', c')"
      and r': "relink rt stack' = Inr st'" and ne: "st' \<noteq> []"
      and ch: "chain rt c0 cur' rest v (fst (hd st'))"
      by auto
    from r' ne obtain q s' where st: "stack' = q # s'"
      by (cases stack') auto
    from put_prop_ok [OF wy, of "fst (hd st')"] obtain z where
      put2: "put_prop rt y k (fst (hd st')) = Inr z" and gz: "own_get z k = Some (fst (hd st'))"
      and tz: "tag_of z = tag_of y" and cz: "container z"
      and sz: "\<forall>k'. sibling y k k' \<longrightarrow> own_get z k' = own_get y k'"
      by blast
    have sib: "own_get z k' = own_get cur k'" if "sibling cur k k'" for k'
    proof -
      have s1: "sibling ?copy k k'" by (rule copy_of_props(4) [OF that])
      then have "sibling y k k'" using sibling_kind [OF ccopy cy ay] by simp
      with sz have "own_get z k' = own_get y k'" by simp
      also have "\<dots> = own_get ?copy k'" using sy s1 by simp
      also have "\<dots> = own_get cur k'" by (rule copy_of_props(3) [OF that])
      finally show ?thesis .
    qed
    have b: "build rt c cur (k # rest) v = Inr ((y, k) # q # s', c')"
      using nv put og b' st by simp
    have r: "relink rt ((y, k) # q # s') = Inr ((z, k) # st')"
      using r' st put2 by simp
    have "chain rt c0 cur (k # rest) v z"
      using gz ch tz ty' c1 cz og sib by simp
    with b r show ?thesis by simp
  qed
qed

lemma plain_path_settable: "plain_path rt cur parts \<Longrightarrow> settable rt cur parts v"
proof (induction parts arbitrary: cur)
  case Nil
  show ?case by simp
next
  case (Cons k ks)
  then obtain cur' where pk: "plain_key rt cur k" and og: "opt_get rt cur k = Inr cur'"
    and tl: "plain_path rt cur' ks"
    by (auto split: sum.splits)
  have "last_key rt cur k v" using pk unfolding last_key_def plain_key_def by blast
  with pk og Cons.IH [OF tl] show ?case by simp
qed

lemma set_parts_chain:
  assumes "settable rt root parts v" and "parts \<noteq> []"
  shows "\<exists>r c'. set_parts rt c root parts v = Inr (r, c') \<and> chain rt c root parts v r"
proof -
  from build_relink_chain [OF assms, of c c] obtain stack c' st where
    "build rt c root parts v = Inr (stack, c')" "relink rt stack = Inr st" "st \<noteq> []"
    "chain rt c root parts v (fst (hd st))"
    by auto
  then show ?thesis
    by (cases st) (auto simp: set_parts_def)
qed

lemma chain_get: "chain rt c cur parts v r \<Longrightarrow> get_parts rt r parts = Inr v"
proof (induction parts arbitrary: cur r)
  case Nil
  then show ?case by simp
next
  case (Cons k ks)
  then obtain nxt cur' where cr: "container r" and g: "own_get r k = Some nxt"
    and ch: "chain rt c cur' ks v nxt"
    by auto
  have "\<not> nullish r" using cr by (rule container_not_nullish)
  moreover have "get_prop rt r k = Inr nxt" by (rule get_prop_own [OF cr g])
  ultimately show ?case using Cons.IH [OF ch] by simp
qed

lemma get_parts_undef: "get_parts rt VUndef ks = Inr VUndef"
  by (cases ks) (simp_all add: nullish_def)

lemma get_parts_Cons_opt:
  "get_parts rt cur (k # ks) = (case opt_get rt cur k of Inl e \<Rightarrow> Inl e | Inr x \<Rightarrow> get_parts rt x ks)"
  by (simp add: opt_get_def get_parts_undef)

lemma chain_ancestors:
  "chain rt c cur parts v r \<Longrightarrow> i < length parts \<Longrightarrow>
   \<exists>n m. get_parts rt r (take i parts) = Inr n \<and> get_parts rt cur (take i parts) = Inr m \<and>
     container n \<and> (\<exists>t. tag_of n = Some t \<and> c \<le> t) \<and>
     (plain_key rt m (parts ! i) \<longrightarrow> (\<forall>k'. sibling m (parts ! i) k' \<longrightarrow> own_get n k' = own_get m k'))"
proof (induction parts arbitrary: cur r i)
  case Nil
  then show ?case by simp
next
  case (Cons k ks)
  show ?case
  proof (cases i)
    case 0
    with Cons.prems show ?thesis by simp
  next
    case (Suc j)
    from Cons.prems obtain nxt cur' where cr: "container r" and g: "own_get r k = Some nxt"
      and og: "opt_get rt cur k = Inr cur'" and ch: "chain rt c cur' ks v nxt"
      by auto
    from Cons.prems Suc have j: "j < length ks" by simp
    have nn: "\<not> nullish r" using cr by (rule container_not_nullish)
    have gp: "get_prop rt r k = Inr nxt" by (rule get_prop_own [OF cr g])
    have a: "get_parts rt r (take i (k # ks)) = get_parts rt nxt (take j ks)"
      using Suc nn gp by simp
    have b: "get_parts rt cur (take i (k # ks)) = get_parts rt cur' (take j ks)"
      using Suc og by (simp add: get_parts_Cons_opt del: get_parts.simps)
    show ?thesis
      unfolding a b using Cons.IH [OF ch j] Suc by simp
  qed
qed

lemma plain_path_key:
  "plain_path rt cur parts \<Longrightarrow> i < length parts \<Longrightarrow> get_parts rt cur (take i parts) = Inr m \<Longrightarrow>
   plain_key rt m (parts ! i)"
proof (induction parts arbitrary: cur i)
  case Nil
  then show ?case by simp
next
  case (Cons k ks)
  from Cons.prems(1) obtain cur' where pk: "plain_key rt cur k" and og: "opt_get rt cur k = Inr cur'"
    and tl: "plain_path rt cur' ks"
    by (auto split: sum.splits)
  show ?case
  proof (cases i)
    case 0
    with Cons.prems pk show ?thesis by simp
  next
    case (Suc j)
    with Cons.prems have j: "j < length ks" by simp
    have "get_parts rt cur' (take j ks) = Inr m"
      using Cons.prems(3) Suc og by (simp add: get_parts_Cons_opt del: get_parts.simps)
    from Cons.IH [OF tl j this] Suc show ?thesis by simp
  qed
qed

lemma plain_path_get: "plain_path rt cur ks \<Longrightarrow> \<exists>x. get_parts rt cur ks = Inr x"
proof (induction ks arbitrary: cur)
  case Nil
  then show ?case by simp
next
  case (Cons k ks)
  then obtain cur' where og: "opt_get rt cur k = Inr cur'" and tl: "plain_path rt cur' ks"
    by (auto split: sum.splits)
  from Cons.IH [OF tl] og show ?case
    by (simp add: get_parts_Cons_opt del: get_parts.simps)
qed

subsection \<open>Paths and their segments\<close>

lemma split_dot_nonempty: "split_dot s \<noteq> []"
  by (induction s) (auto split: list.splits)

lemma splitPath_nonempty: "splitPath rt p \<noteq> []"
  by (simp add: splitPath_def split_dot_nonempty)

lemma to_part_key_name: "wf_key k \<Longrightarrow> to_part rt (key_name k) = k"
  using digits_props by (cases k) (auto simp: wf_key_def to_part_def)

lemma key_name_no_dot: "wf_key k \<Longrightarrow> CHR ''.'' \<notin> set (key_name k)"
  using digits_props by (cases k) (auto simp: wf_key_def)

lemma wf_to_part: "CHR ''.'' \<notin> set s \<Longrightarrow> to_part rt s = k \<Longrightarrow> (\<forall>b. k \<noteq> KBig b) \<Longrightarrow> wf_key k"
  by (auto simp: wf_key_def to_part_def split: if_splits)

lemma split_dot_no_dot: "s \<in> set (split_dot p) \<Longrightarrow> CHR ''.'' \<notin> set s"
proof (induction p arbitrary: s)
  case Nil
  then show ?case by simp
next
  case (Cons c cs)
  show ?case
  proof (cases "c = CHR ''.''")
    case True
    with Cons show ?thesis by auto
  next
    case False
    obtain q qs where sp: "split_dot cs = q # qs"
      using split_dot_nonempty [of cs] by (cases "split_dot cs") auto
    from Cons.prems False sp have "s = c # q \<or> s \<in> set qs" by simp
    then show ?thesis
      using Cons.IH [of q] Cons.IH [of s] sp False by auto
  qed
qed

lemma wf_splitPath: "k \<in> set (splitPath rt p) \<Longrightarrow> (\<forall>b. k \<noteq> KBig b) \<Longrightarrow> wf_key k"
proof -
  assume "k \<in> set (splitPath rt p)" and nb: "\<forall>b. k \<noteq> KBig b"
  then obtain s where s: "s \<in> set (split_dot p)" and k: "to_part rt s = k"
    by (auto simp: splitPath_def)
  from split_dot_no_dot [OF s] k nb show ?thesis
    by (rule wf_to_part)
qed

lemma split_dot_append:
  "CHR ''.'' \<notin> set s \<Longrightarrow> split_dot (s @ CHR ''.'' # rest) = s # split_dot rest"
  by (induction s) (auto split: list.splits)

lemma split_dot_plain: "CHR ''.'' \<notin> set s \<Longrightarrow> split_dot s = [s]"
  by (induction s) (auto split: list.splits)

lemma split_dot_join:
  "ss \<noteq> [] \<Longrightarrow> (\<And>s. s \<in> set ss \<Longrightarrow> CHR ''.'' \<notin> set s) \<Longrightarrow> split_dot (join_dot ss) = ss"
proof (induction ss rule: join_dot.induct)
  case 1
  then show ?case by simp
next
  case (2 s)
  then show ?case by (simp add: split_dot_plain)
next
  case (3 s t ss)
  have "split_dot (join_dot (t # ss)) = t # ss"
    using 3 by simp
  then show ?case
    using 3(3) [of s] by (simp add: split_dot_append)
qed

lemma splitPath_join:
  assumes "ks \<noteq> []" and "\<And>k. k \<in> set ks \<Longrightarrow> wf_key k"
  shows "splitPath rt (join_dot (map key_name ks)) = ks"
proof -
  have "split_dot (join_dot (map key_name ks)) = map key_name ks"
    using assms by (intro split_dot_join) (auto dest: key_name_no_dot)
  then have "splitPath rt (join_dot (map key_name ks)) = map (to_part rt \<circ> key_name) ks"
    by (simp add: splitPath_def)
  also have "\<dots> = ks"
    using assms(2) by (induction ks) (simp_all add: to_part_key_name)
  finally show ?thesis .
qed

lemma join_dot_empty: "join_dot ss = [] \<Longrightarrow> ss = [] \<or> ss = [[]]"
  by (induction ss rule: join_dot.induct) simp_all

lemma key_name_empty: "wf_key k \<Longrightarrow> key_name k = [] \<Longrightarrow> k = KStr []"
  using digits_props by (cases k) (auto simp: wf_key_def)

lemma parent_path_empty:
  assumes "\<And>k. k \<in> set ks \<Longrightarrow> wf_key k" and "join_dot (map key_name ks) = []"
  shows "ks = [] \<or> ks = [KStr []]"
proof -
  from join_dot_empty [OF assms(2)] have "map key_name ks = [] \<or> map key_name ks = [[]]" .
  then show ?thesis
  proof
    assume "map key_name ks = []"
    then show ?thesis by simp
  next
    assume "map key_name ks = [[]]"
    then obtain k where k: "ks = [k]" "key_name k = []" by (cases ks) auto
    with assms(1) [of k] key_name_empty [of k] show ?thesis by simp
  qed
qed

subsection \<open>Reading after deleting\<close>

lemma get_parts_snoc:
  "get_parts rt cur (ks @ [k]) =
     (case get_parts rt cur ks of
        Inl e \<Rightarrow> Inl e
      | Inr x \<Rightarrow> if nullish x then Inr VUndef else get_prop rt x k)"
proof (induction ks arbitrary: cur)
  case Nil
  show ?case by (simp split: sum.splits)
next
  case (Cons a ks)
  show ?case
    by (simp add: Cons.IH nullish_def split: sum.splits)
qed

lemma get_prop_absent:
  assumes "container x" and "own_get x k = None" and "proto_of rt x = proto_of rt y"
    and "container y" and "own_get y k = None"
  shows "get_prop rt x k = get_prop rt y k"
  using assms by (cases x; cases y) (simp_all add: get_prop_def)

lemma remove_key_ok:
  assumes nn: "\<not> nullish parent"
    and ns: "\<not> shifts rt parent k"
    and ni: "get_prop rt (empty_like rt parent) k = Inr VUndef"
  shows "\<exists>copy. remove_key (spread rt c parent) k = Inr copy \<and> container copy \<and>
           get_prop rt copy k = Inr VUndef"
proof (cases "isArray rt parent")
  case True
  define xs where "xs = elements rt parent"
  have sp: "spread rt c parent = VArr c xs [] None" using True by (simp add: spread_def xs_def)
  have el: "empty_like rt parent = VArr 0 [] [] None" using True by (simp add: empty_like_def)
  have nlen: "key_name k \<noteq> ''length''"
  proof
    assume "key_name k = ''length''"
    moreover from this have "array_index k = None"
      using array_index_plain [of k] by (cases "array_index k") auto
    ultimately show False using ni by (simp add: el get_prop_def)
  qed
  have absent: "get_prop rt (VArr c ys [] None) k = Inr VUndef" if "own_get (VArr c ys [] None) k = None" for ys
  proof -
    have "own_get (VArr 0 [] [] None) k = None"
      using nlen by (simp split: option.splits)
    from get_prop_absent [OF _ that _ _ this, of rt] ni show ?thesis
      by (simp add: el proto_of_def)
  qed
  show ?thesis
  proof (cases k)
    case (KNum n)
    let ?ys = "take n xs @ drop (Suc n) xs"
    have rk: "remove_key (spread rt c parent) k = Inr (VArr c ?ys [] None)"
      by (simp add: sp remove_key_def KNum)
    have "get_prop rt (VArr c ?ys [] None) k = Inr VUndef"
    proof (cases "own_get (VArr c ?ys [] None) k")
      case None
      then show ?thesis by (rule absent)
    next
      case (Some w)
      then have idx: "array_index k = Some n" and lt: "n < length ?ys" and w: "?ys ! n = Some w"
        using nlen KNum by (auto simp: array_index_def split: if_splits option.splits)
      from lt have sn: "Suc n < length xs" by auto
      have "?ys ! n = xs ! Suc n" using sn by (simp add: nth_append min_def)
      with w ns True KNum sn have "w = VUndef"
        by (auto simp: shifts_def xs_def split: option.splits)
      with Some show ?thesis by (simp add: get_prop_def)
    qed
    with rk show ?thesis by simp
  next
    case (KBig s)
    have rk: "remove_key (spread rt c parent) k = Inr (VArr c xs [] None)"
      by (simp add: sp remove_key_def KBig)
    have "own_get (VArr c xs [] None) k = None"
      using nlen KBig by (simp add: array_index_def)
    from absent [OF this] rk show ?thesis by simp
  next
    case (KStr s)
    with nlen have rk: "remove_key (spread rt c parent) k = Inr (VArr c xs [] None)"
      by (simp add: sp remove_key_def prop_del_def)
    have "own_get (VArr c xs [] None) k = None"
      using nlen KStr by (simp add: array_index_def)
    from absent [OF this] rk show ?thesis by simp
  qed
next
  case False
  define ps where "ps = enumerable rt parent"
  have sp: "spread rt c parent = VObj c ps None" using False by (simp add: spread_def ps_def)
  have el: "empty_like rt parent = VObj 0 [] None" using False by (simp add: empty_like_def)
  let ?copy = "VObj c (prop_del (key_name k) ps) None"
  have rk: "remove_key (spread rt c parent) k = Inr ?copy"
    by (simp add: sp remove_key_def)
  have "own_get ?copy k = None" by (simp add: map_of_prop_del)
  from get_prop_absent [OF _ this, of rt "VObj 0 [] None"] ni
  have "get_prop rt ?copy k = Inr VUndef" by (simp add: el proto_of_def)
  with rk show ?thesis by simp
qed

subsection \<open>The claims about the path operations\<close>

lemmas path_eval = splitPath_def to_part_def is_digit_def digit_chars_def nat_of_digits_def
  digit_val_def

lemma small_runtime_simps:
  "to_num small_runtime v = None" "big_name small_runtime p = p"
  "object_proto small_runtime = 0" "array_proto small_runtime = 1"
  "string_proto small_runtime = 2" "number_proto small_runtime = 3"
  "boolean_proto small_runtime = 4"
  "builtin_get small_runtime b s =
     (if s = ''toString'' then Inr (VBuiltin 5)
      else if s = ''caller'' \<and> b = 5 then Inl TypeError else Inr VUndef)"
  "builtin_shape small_runtime b =
     (if b = 1 then BArray [] else if b = 5 then BFunction [] else BObject [])"
  by (simp_all add: small_runtime_def)

lemma digits_single: "n < 10 \<Longrightarrow> digits n = [digit_char n]"
  by (subst digits.simps) simp

lemmas store_eval = setAtPath_def set_parts_def getAtPath_def deleteAtPath_def next_value_def
  copy_of_def spread_def remove_key_def array_set_length_def to_number_def nullish_def opt_get_def
  get_prop_def isArray_def isObject_def elements_def enumerable_def array_index_def proto_of_def
  from_builtin_def runs_setter_def object_or_null_def prop_del_def small_runtime_simps
  digits_single digit_char_def

text \<open>
  Claim C2, as stated, for every path. In the example state, \<open>set('s.length', null)\<close>
  truncates the copy of the array \<open>s\<close> to length \<open>0\<close>, and reading \<open>s.length\<close> back gives
  the number \<open>0\<close>, not \<open>null\<close>; \<open>set('s.length', -1)\<close> throws a \<open>RangeError\<close> and has no
  result at all. On the empty object, \<open>set('__proto__', 5)\<close> assigns to the accessor that
  objects inherit from \<open>Object.prototype\<close>, whose setter ignores a value that is not an
  object; reading \<open>__proto__\<close> back gives \<open>Object.prototype\<close>, not \<open>5\<close>.
\<close>

theorem set_get_roundtrip_counterexample:
  "setAtPath small_runtime 5 example_state ''s.length'' VNull
     = Inr (VObj 5 [(''a'', VObj 1 [(''b'', VNum 1)] None), (''s'', VArr 6 [] [] None)] None, 7) \<and>
   getAtPath small_runtime (VObj 5 [(''a'', VObj 1 [(''b'', VNum 1)] None), (''s'', VArr 6 [] [] None)] None)
     ''s.length'' = Inr (VNum 0) \<and>
   setAtPath small_runtime 5 example_state ''s.length'' (VNum (- 1)) = Inl RangeError \<and>
   setAtPath small_runtime 5 (VObj 0 [] None) ''__proto__'' (VNum 5) = Inr (VObj 5 [] None, 6) \<and>
   getAtPath small_runtime (VObj 5 [] None) ''__proto__'' = Inr (VBuiltin (object_proto small_runtime))"
  by (simp add: store_eval path_eval example_state_def)

text \<open>
  Claim C2, amended: for every JSON state, every value \<open>v\<close> and every path \<open>p\<close>,
  \<open>setAtPath\<close> returns a state, and reading \<open>p\<close> from it gives exactly \<open>v\<close>, whatever the
  nodes along \<open>p\<close> were before (absent, \<open>null\<close>, primitive values, arrays or objects),
  provided that
  \<^item> no segment of \<open>p\<close> is \<open>__proto__\<close>,
  \<^item> the walk applies the segment \<open>length\<close> to an array at most as the last segment,
    and then \<open>v\<close> is an integer from \<open>0\<close> to \<open>2^32 - 1\<close>,
  \<^item> and none of the reads \<open>cur?.[key]\<close> of the walk throws.
\<close>

theorem set_get_roundtrip:
  assumes "json root" and "settable rt root (splitPath rt p) v"
  shows "\<exists>r c'. setAtPath rt c root p v = Inr (r, c') \<and> getAtPath rt r p = Inr v"
  using set_parts_chain [OF assms(2) splitPath_nonempty, of c] chain_get
  by (fastforce simp: setAtPath_def getAtPath_def)

theorem set_get_roundtrip_witness:
  "(\<exists>r c'. setAtPath small_runtime 5 example_state ''a.b'' (VStr ''x'') = Inr (r, c') \<and>
          getAtPath small_runtime r ''a.b'' = Inr (VStr ''x'')) \<and>
   (\<exists>r c'. setAtPath small_runtime 5 example_state ''s.length'' (VNum 1) = Inr (r, c') \<and>
          getAtPath small_runtime r ''s.length'' = Inr (VNum 1))"
proof -
  have j: "json example_state" by (simp add: example_state_def)
  have a: "settable small_runtime example_state (splitPath small_runtime ''a.b'') (VStr ''x'')"
    by (simp add: store_eval path_eval example_state_def last_key_def
        plain_key_def array_copy_def)
  have b: "settable small_runtime example_state (splitPath small_runtime ''s.length'') (VNum 1)"
    by (simp add: store_eval path_eval example_state_def last_key_def
        plain_key_def array_copy_def valid_length_def)
  from set_get_roundtrip [OF j a] set_get_roundtrip [OF j b] show ?thesis by blast
qed

text \<open>
  Claim C3, as stated, for every path: in the example state, \<open>set('s.length', 1)\<close>
  truncates the copy of the array \<open>s\<close>; its element \<open>s.1\<close>, a sibling that does not lie on
  the path, is not in the result any more.
\<close>

theorem set_siblings_counterexample:
  "setAtPath small_runtime 5 example_state ''s.length'' (VNum 1)
     = Inr (VObj 5 [(''a'', VObj 1 [(''b'', VNum 1)] None),
                    (''s'', VArr 6 [Some (VObj 3 [(''id'', VNum 7)] None)] [] None)] None, 7) \<and>
   getAtPath small_runtime example_state ''s.1'' = Inr (VObj 4 [(''id'', VNum 8)] None) \<and>
   getAtPath small_runtime
     (VObj 5 [(''a'', VObj 1 [(''b'', VNum 1)] None),
              (''s'', VArr 6 [Some (VObj 3 [(''id'', VNum 7)] None)] [] None)] None) ''s.1''
     = Inr VUndef"
  by (simp add: store_eval path_eval example_state_def)

text \<open>
  Claim C3, amended: for every JSON state whose identities lie below the allocation
  counter and every path \<open>p\<close> whose walk never applies the segment \<open>length\<close> to an array
  (and, which is left aside, has no segment \<open>__proto__\<close> and no read that throws),
  \<open>setAtPath\<close> returns a state in which every node along \<open>p\<close>, from the root to the parent
  of the leaf, is an array or object with an identity that the input state does not
  contain, and in which every other element of an array on the path and every other
  property of an object on the path is the value, identity included, that the input state
  has there. The other properties are those with another name: a numeric segment of at
  least \<open>2^53\<close> addresses the property that the runtime rounds it to.
\<close>

theorem set_copies_ancestors:
  assumes "json root" and "plain_path rt root (splitPath rt p)" and "\<forall>t\<in>tags root. t < c"
  shows "\<exists>r c'. setAtPath rt c root p v = Inr (r, c') \<and>
           (\<forall>i<length (splitPath rt p).
              container (node_at rt r p i) \<and>
              (\<exists>t. tag_of (node_at rt r p i) = Some t \<and> t \<notin> tags root) \<and>
              (\<forall>k'. sibling (node_at rt root p i) (splitPath rt p ! i) k' \<longrightarrow>
                 own_get (node_at rt r p i) k' = own_get (node_at rt root p i) k'))"
proof -
  from set_parts_chain [OF plain_path_settable [OF assms(2)] splitPath_nonempty,
      where v = v and c = c]
  obtain r c' where
    s: "set_parts rt c root (splitPath rt p) v = Inr (r, c')"
    and ch: "chain rt c root (splitPath rt p) v r"
    by blast
  have fresh: "t \<notin> tags root" if "c \<le> t" for t
    using assms(3) that by auto
  have "container (node_at rt r p i) \<and>
        (\<exists>t. tag_of (node_at rt r p i) = Some t \<and> t \<notin> tags root) \<and>
        (\<forall>k'. sibling (node_at rt root p i) (splitPath rt p ! i) k' \<longrightarrow>
           own_get (node_at rt r p i) k' = own_get (node_at rt root p i) k')"
    if i: "i < length (splitPath rt p)" for i
  proof -
    from chain_ancestors [OF ch i] obtain n m where
      n: "get_parts rt r (take i (splitPath rt p)) = Inr n"
      and m: "get_parts rt root (take i (splitPath rt p)) = Inr m"
      and c: "container n" and t: "\<exists>t. tag_of n = Some t \<and> c \<le> t"
      and sb: "plain_key rt m (splitPath rt p ! i) \<longrightarrow>
                 (\<forall>k'. sibling m (splitPath rt p ! i) k' \<longrightarrow> own_get n k' = own_get m k')"
      by blast
    have "plain_key rt m (splitPath rt p ! i)"
      by (rule plain_path_key [OF assms(2) i m])
    with sb c t fresh show ?thesis
      by (auto simp: node_at_def n m)
  qed
  with s show ?thesis by (simp add: setAtPath_def)
qed

theorem set_copies_ancestors_witness:
  "\<exists>r c'. setAtPath small_runtime 5 example_state ''a.b'' (VStr ''x'') = Inr (r, c') \<and>
          (\<exists>t. tag_of r = Some t \<and> t \<notin> {0, 1, 2, 3, 4}) \<and>
          (\<exists>n t. get_prop small_runtime r (KStr ''a'') = Inr n \<and> tag_of n = Some t \<and> t \<notin> {0, 1, 2, 3, 4}) \<and>
          own_get r (KStr ''s'')
            = Some (VArr 2 [Some (VObj 3 [(''id'', VNum 7)] None), Some (VObj 4 [(''id'', VNum 8)] None)] [] None)"
proof -
  let ?rt = small_runtime
  have j: "json example_state" by (simp add: example_state_def)
  have nl: "plain_path ?rt example_state (splitPath ?rt ''a.b'')"
    by (simp add: store_eval path_eval example_state_def plain_key_def
        array_copy_def)
  have tg: "\<forall>t\<in>tags example_state. t < 5"
    by (simp add: example_state_def)
  have tags: "tags example_state = {0, 1, 2, 3, 4}"
    by (auto simp: example_state_def)
  have sp: "splitPath ?rt ''a.b'' = [KStr ''a'', KStr ''b'']"
    by (simp add: path_eval)
  from set_copies_ancestors [OF j nl tg, of "VStr ''x''"] obtain r c' where
    s: "setAtPath ?rt 5 example_state ''a.b'' (VStr ''x'') = Inr (r, c')"
    and a: "\<forall>i<length (splitPath ?rt ''a.b'').
              container (node_at ?rt r ''a.b'' i) \<and>
              (\<exists>t. tag_of (node_at ?rt r ''a.b'' i) = Some t \<and> t \<notin> tags example_state) \<and>
              (\<forall>k'. sibling (node_at ?rt example_state ''a.b'' i) (splitPath ?rt ''a.b'' ! i) k' \<longrightarrow>
                 own_get (node_at ?rt r ''a.b'' i) k' = own_get (node_at ?rt example_state ''a.b'' i) k')"
    by blast
  have n0: "node_at ?rt r ''a.b'' 0 = r" "node_at ?rt example_state ''a.b'' 0 = example_state"
    by (simp_all add: node_at_def)
  from a [rule_format, of 0] have a0: "container r"
    "\<exists>t. tag_of r = Some t \<and> t \<notin> {0, 1, 2, 3, 4}"
    "\<forall>k'. sibling example_state (KStr ''a'') k' \<longrightarrow> own_get r k' = own_get example_state k'"
    by (simp_all add: n0 sp tags)
  from a [rule_format, of "Suc 0"] have a1:
    "container (node_at ?rt r ''a.b'' (Suc 0))"
    "\<exists>t. tag_of (node_at ?rt r ''a.b'' (Suc 0)) = Some t \<and> t \<notin> {0, 1, 2, 3, 4}"
    by (simp_all add: sp tags)
  have nn: "\<not> nullish r" by (rule container_not_nullish [OF a0(1)])
  obtain n where gn: "get_prop ?rt r (KStr ''a'') = Inr n"
    and n1: "node_at ?rt r ''a.b'' (Suc 0) = n"
    using a1(1) nn by (cases "get_prop ?rt r (KStr ''a'')") (simp_all add: node_at_def sp)
  have "sibling example_state (KStr ''a'') (KStr ''s'')"
    by (simp add: sibling_def example_state_def)
  with a0(3) have "own_get r (KStr ''s'') = own_get example_state (KStr ''s'')" by blast
  then have s3: "own_get r (KStr ''s'')
      = Some (VArr 2 [Some (VObj 3 [(''id'', VNum 7)] None), Some (VObj 4 [(''id'', VNum 8)] None)] [] None)"
    by (simp add: example_state_def)
  from s a0(2) a1(2) gn n1 s3 show ?thesis by blast
qed

text \<open>
  Claim C4, as stated. For a numeric index into an array: \<open>del('s.0')\<close> splices the first
  element out of the copy of \<open>s\<close>, the second element moves into its place, and reading
  \<open>s.0\<close> gives that element, not \<open>undefined\<close>. For an inherited property: \<open>del('a.toString')\<close>
  deletes nothing, as the copy of \<open>a\<close> owns no such property, and reading \<open>a.toString\<close>
  gives the function that objects inherit from \<open>Object.prototype\<close>.
\<close>

theorem delete_array_index_counterexample:
  "deleteAtPath small_runtime 5 example_state ''s.0''
     = Inr (VObj 6 [(''a'', VObj 1 [(''b'', VNum 1)] None),
                    (''s'', VArr 5 [Some (VObj 4 [(''id'', VNum 8)] None)] [] None)] None, 7) \<and>
   getAtPath small_runtime
     (VObj 6 [(''a'', VObj 1 [(''b'', VNum 1)] None),
              (''s'', VArr 5 [Some (VObj 4 [(''id'', VNum 8)] None)] [] None)] None) ''s.0''
     = Inr (VObj 4 [(''id'', VNum 8)] None) \<and>
   deleteAtPath small_runtime 5 example_state ''a.toString''
     = Inr (VObj 6 [(''a'', VObj 5 [(''b'', VNum 1)] None),
                    (''s'', VArr 2 [Some (VObj 3 [(''id'', VNum 7)] None),
                                    Some (VObj 4 [(''id'', VNum 8)] None)] [] None)] None, 7) \<and>
   getAtPath small_runtime
     (VObj 6 [(''a'', VObj 5 [(''b'', VNum 1)] None),
              (''s'', VArr 2 [Some (VObj 3 [(''id'', VNum 7)] None),
                              Some (VObj 4 [(''id'', VNum 8)] None)] [] None)] None) ''a.toString''
     = Inr (VBuiltin 5)"
  by (simp add: store_eval path_eval example_state_def Let_def)

text \<open>
  Claim C4, amended: for every JSON state and every path \<open>p\<close>, \<open>deleteAtPath\<close> returns a
  state from which reading \<open>p\<close> gives \<open>undefined\<close>, unless
  \<^item> the last segment of \<open>p\<close> is the index of an array element that is followed by an
    element other than \<open>undefined\<close> (the elements after the deleted one move down by one
    place), or
  \<^item> the last segment names a property that is inherited: one that can be read from an
    empty array, if the parent is an array, or else from an empty object (\<open>toString\<close>,
    \<open>constructor\<close>, \<open>__proto__\<close>; for an array also its \<open>length\<close>, which it owns and which
    cannot be deleted).

  Left aside are the paths that consist of an empty first segment and one more segment,
  and the paths in which a segment before the last is \<open>__proto__\<close>, is \<open>length\<close> applied
  to an array, is a number of at least \<open>2^53\<close>, or is read with an exception.
\<close>

theorem delete_then_get:
  assumes j: "json root"
    and q: "butlast (splitPath rt p) \<noteq> [KStr []]"
    and nb: "\<forall>k \<in> set (butlast (splitPath rt p)). \<not> is_big k"
    and pl: "plain_path rt root (butlast (splitPath rt p))"
    and ns: "\<not> shifts rt (parent_at rt root p) (last (splitPath rt p))"
    and ni: "get_prop rt (empty_like rt (parent_at rt root p)) (last (splitPath rt p)) = Inr VUndef"
  shows "\<exists>r c'. deleteAtPath rt c root p = Inr (r, c') \<and> getAtPath rt r p = Inr VUndef"
proof -
  define bl where "bl = butlast (splitPath rt p)"
  define k where "k = last (splitPath rt p)"
  define pp where "pp = join_dot (map key_name bl)"
  have parts: "splitPath rt p = bl @ [k]"
    using splitPath_nonempty [of rt p] by (simp add: bl_def k_def)
  from plain_path_get [OF pl] obtain parent where par: "get_parts rt root bl = Inr parent"
    by (auto simp: bl_def)
  have tk: "take (length (splitPath rt p) - 1) (splitPath rt p) = bl"
    by (simp add: parts)
  have na: "parent_at rt root p = parent"
    unfolding parent_at_def node_at_def tk par by simp
  have wf: "wf_key j" if "j \<in> set bl" for j
  proof -
    from that have "j \<in> set (splitPath rt p)" by (auto simp: bl_def dest: in_set_butlastD)
    moreover from that nb have "\<forall>b. j \<noteq> KBig b" by (auto simp: bl_def)
    ultimately show ?thesis by (rule wf_splitPath)
  qed
  have blpp: "bl = []" if "pp = []"
    using parent_path_empty [of bl] wf that q by (auto simp: pp_def bl_def)
  have sp: "splitPath rt pp = bl" if "pp \<noteq> []"
  proof -
    from that have "bl \<noteq> []" by (auto simp: pp_def)
    then show ?thesis unfolding pp_def using wf by (rule splitPath_join)
  qed
  have parent: "(if pp \<noteq> [] then getAtPath rt root pp else Inr root) = Inr parent"
    using blpp sp par by (auto simp: getAtPath_def)
  have get_all: "getAtPath rt x p = (case get_parts rt x bl of Inl e \<Rightarrow> Inl e
        | Inr y \<Rightarrow> if nullish y then Inr VUndef else get_prop rt y k)" for x
    by (simp add: getAtPath_def parts get_parts_snoc)
  show ?thesis
  proof (cases "nullish parent")
    case True
    have "deleteAtPath rt c root p = Inr (root, c)"
      using True parent splitPath_nonempty [of rt p]
      by (simp add: deleteAtPath_def Let_def bl_def [symmetric] pp_def [symmetric])
    moreover have "getAtPath rt root p = Inr VUndef"
      using True par by (simp add: get_all)
    ultimately show ?thesis by simp
  next
    case False
    from remove_key_ok [OF False, of rt k c] ns ni obtain copy where
      rk: "remove_key (spread rt c parent) k = Inr copy" and cc: "container copy"
      and g: "get_prop rt copy k = Inr VUndef"
      by (auto simp: na k_def)
    have ncopy: "\<not> nullish copy" using cc by (rule container_not_nullish)
    show ?thesis
    proof (cases "pp = []")
      case True
      then have "deleteAtPath rt c root p = Inr (copy, Suc c)"
        using False parent rk splitPath_nonempty [of rt p]
        by (simp add: deleteAtPath_def Let_def bl_def [symmetric] pp_def [symmetric]
            k_def [symmetric])
      moreover have "getAtPath rt copy p = Inr VUndef"
        using blpp [OF True] g ncopy by (simp add: get_all)
      ultimately show ?thesis by simp
    next
      case ne: False
      then have bne: "bl \<noteq> []" by (auto simp: pp_def)
      from set_parts_chain [OF plain_path_settable bne, where rt = rt and root = root
          and v = copy and c = "Suc c"] pl
      obtain r c' where
        s: "set_parts rt (Suc c) root bl copy = Inr (r, c')"
        and ch: "chain rt (Suc c) root bl copy r"
        by (auto simp: bl_def)
      have "deleteAtPath rt c root p = Inr (r, c')"
        using False parent rk ne s sp [OF ne] splitPath_nonempty [of rt p]
        by (simp add: deleteAtPath_def Let_def bl_def [symmetric] pp_def [symmetric]
            k_def [symmetric] setAtPath_def)
      moreover have "getAtPath rt r p = Inr VUndef"
        using chain_get [OF ch] g ncopy by (simp add: get_all)
      ultimately show ?thesis by simp
    qed
  qed
qed

theorem delete_then_get_witness:
  "(\<exists>r c'. deleteAtPath small_runtime 5 example_state ''a.b'' = Inr (r, c') \<and>
           getAtPath small_runtime r ''a.b'' = Inr VUndef) \<and>
   (\<exists>r c'. deleteAtPath small_runtime 5 example_state ''s.1'' = Inr (r, c') \<and>
           getAtPath small_runtime r ''s.1'' = Inr VUndef)"
proof -
  let ?rt = small_runtime
  have j: "json example_state" by (simp add: example_state_def)
  have sa: "splitPath ?rt ''a.b'' = [KStr ''a'', KStr ''b'']"
    and ss: "splitPath ?rt ''s.1'' = [KStr ''s'', KNum 1]"
    by (simp_all add: path_eval)
  have na: "parent_at ?rt example_state ''a.b'' = VObj 1 [(''b'', VNum 1)] None"
    and nsn: "parent_at ?rt example_state ''s.1''
        = VArr 2 [Some (VObj 3 [(''id'', VNum 7)] None), Some (VObj 4 [(''id'', VNum 8)] None)] [] None"
    by (simp_all add: parent_at_def node_at_def sa ss store_eval example_state_def)
  have a1: "butlast (splitPath ?rt ''a.b'') \<noteq> [KStr []]"
    and a2: "\<forall>k \<in> set (butlast (splitPath ?rt ''a.b'')). \<not> is_big k"
    and a3: "plain_path ?rt example_state (butlast (splitPath ?rt ''a.b''))"
    by (simp_all add: sa store_eval example_state_def plain_key_def array_copy_def)
  have a4: "\<not> shifts ?rt (parent_at ?rt example_state ''a.b'') (last (splitPath ?rt ''a.b''))"
    and a5: "get_prop ?rt (empty_like ?rt (parent_at ?rt example_state ''a.b''))
               (last (splitPath ?rt ''a.b'')) = Inr VUndef"
    unfolding na sa by (simp_all add: shifts_def empty_like_def store_eval)
  have b1: "butlast (splitPath ?rt ''s.1'') \<noteq> [KStr []]"
    and b2: "\<forall>k \<in> set (butlast (splitPath ?rt ''s.1'')). \<not> is_big k"
    and b3: "plain_path ?rt example_state (butlast (splitPath ?rt ''s.1''))"
    by (simp_all add: ss store_eval example_state_def plain_key_def array_copy_def)
  have b4: "\<not> shifts ?rt (parent_at ?rt example_state ''s.1'') (last (splitPath ?rt ''s.1''))"
    and b5: "get_prop ?rt (empty_like ?rt (parent_at ?rt example_state ''s.1''))
               (last (splitPath ?rt ''s.1'')) = Inr VUndef"
    unfolding nsn ss by (simp_all add: shifts_def empty_like_def store_eval)
  have a: "\<exists>r c'. deleteAtPath ?rt 5 example_state ''a.b'' = Inr (r, c') \<and>
           getAtPath ?rt r ''a.b'' = Inr VUndef"
    by (rule delete_then_get [OF j a1 a2 a3 a4 a5])
  have b: "\<exists>r c'. deleteAtPath ?rt 5 example_state ''s.1'' = Inr (r, c') \<and>
           getAtPath ?rt r ''s.1'' = Inr VUndef"
    by (rule delete_then_get [OF j b1 b2 b3 b4 b5])
  from a b show ?thesis by blast
qed

end
